theory Spec2Isabelle
  imports Complex_Main "HOL-Library.Product_Lexorder" "HOL-Library.Log_Nat" "HOL-Library.Multiset"
begin

section \<open>vcf2cytosure: data model\<close>

text \<open>
  Exceptions of the Python source are values. \<open>EmptyInputError\<close> is the error named by the
  specification for an empty coverage input; no path of the source raises it.
\<close>

datatype error =
    ZeroDivisionError
  | TypeError
  | ValueError
  | IndexError
  | AssertionError
  | OverflowError
  | EmptyInputError

text \<open>
  The fields of \<open>variant.INFO\<close> that the source reads, typed as the VCF header declares
  them: \<open>END\<close> an integer, \<open>SVTYPE\<close> and \<open>CHR2\<close> strings, and the frequency tags floats
  (looked up by tag name, as \<open>INFO.get(frequency_tag)\<close> does). \<open>None\<close> is a missing key.
\<close>

record info =
  END :: "int option"
  SVTYPE :: "string option"
  CHR2 :: "string option"
  FREQ :: "string \<Rightarrow> rat option"

text \<open>
  A record of the variant-call stream, as the reader exposes it: \<open>CHROM\<close>, \<open>start\<close>
  (0-based), \<open>REF\<close>, \<open>ALT\<close> and \<open>INFO\<close>. The field names carry a prefix because \<open>start\<close>
  is a local variable of several functions below.
\<close>

record variant =
  v_CHROM :: string
  v_start :: int
  v_REF :: string
  v_ALT :: "string list"
  v_INFO :: info

text \<open>\<open>Event = namedtuple('Event', ['chrom', 'start', 'end', 'type', 'info'])\<close>\<close>

record event =
  ev_chrom :: string
  ev_start :: int
  ev_end :: "int option"
  ev_type :: "string option"
  ev_info :: info

text \<open>
  A Python generator is modelled by the list of the values it yields together with the
  exception that ends it, if one does.
\<close>

type_synonym 'a generated = "'a list \<times> error option"

definition gen_yield :: "'a \<Rightarrow> 'a generated \<Rightarrow> 'a generated" where
  "gen_yield x g = (x # fst g, snd g)"

text \<open>Python truthiness of \<open>variant.INFO.get("END")\<close>: \<open>None\<close> and \<open>0\<close> are false.\<close>

fun truthy_int :: "int option \<Rightarrow> bool" where
  "truthy_int None = False"
| "truthy_int (Some e) = (e \<noteq> 0)"

text \<open>An interval is a pair \<open>(start, end)\<close> of integers, as the tuples of the source.\<close>

type_synonym interval = "int \<times> int"

section \<open>EventExtractor: \<open>events\<close>\<close>

text \<open>
  \<open>CONTIG_LENGTHS\<close> comes from the \<open>constants\<close> module; it is a parameter here, a map from
  contig name to length. The body follows the source line by line: the two \<open>continue\<close>s,
  the swap under \<open>start <= end\<close>, the assertion on \<open>REF\<close>, and the two \<open>yield\<close>s.
\<close>

fun events :: "(string \<rightharpoonup> int) \<Rightarrow> variant list \<Rightarrow> event generated" where
  "events contig_lengths [] = ([], None)"
| "events contig_lengths (v # vs) =
     (if length (v_ALT v) \<noteq> 1 then events contig_lengths vs
      else if v_CHROM v \<notin> dom contig_lengths then events contig_lengths vs
      else if truthy_int (END (v_INFO v)) then
        (let e0 = the (END (v_INFO v));
             s0 = v_start v;
             e1 = (if s0 \<le> e0 then s0 else e0);
             s1 = (if s0 \<le> e0 then e0 else s0)
         in if length (v_REF v) \<noteq> 1 then ([], Some AssertionError)
            else gen_yield \<lparr>ev_chrom = v_CHROM v, ev_start = s1, ev_end = Some e1,
                             ev_type = SVTYPE (v_INFO v), ev_info = v_INFO v\<rparr>
                           (events contig_lengths vs))
      else gen_yield \<lparr>ev_chrom = v_CHROM v, ev_start = v_start v, ev_end = None,
                       ev_type = SVTYPE (v_INFO v), ev_info = v_INFO v\<rparr>
                     (events contig_lengths vs))"

text \<open>An ordinary deletion record: \<open>start = 100\<close>, \<open>END = 5200\<close>.\<close>

definition deletion_100_5200 :: variant where
  "deletion_100_5200 =
     \<lparr>v_CHROM = ''1'', v_start = 100, v_REF = ''N'', v_ALT = [''<DEL>''],
      v_INFO = \<lparr>END = Some 5200, SVTYPE = Some ''DEL'', CHR2 = None, FREQ = (\<lambda>t. None)\<rparr>\<rparr>"

section \<open>IntervalAlgebra: \<open>merge_intervals\<close> and \<open>complement_intervals\<close>\<close>

text \<open>
  The sweep events of \<open>merge_intervals\<close> are tuples \<open>(pos, 'START')\<close> and \<open>(pos, 'STOP')\<close>.
  \<open>events.sort()\<close> orders tuples lexicographically, and the string \<open>'START'\<close> is below
  \<open>'STOP'\<close>; the order on \<open>what\<close> is that string order.
\<close>

datatype what = START | STOP

instantiation what :: linorder
begin

definition less_eq_what :: "what \<Rightarrow> what \<Rightarrow> bool" where
  "less_eq_what a b = (a = START \<or> b = STOP)"

definition less_what :: "what \<Rightarrow> what \<Rightarrow> bool" where
  "less_what a b = (a = START \<and> b = STOP)"

instance
proof
  fix x y z :: what
  show "(x < y) = (x \<le> y \<and> \<not> y \<le> x)"
    by (cases x; cases y) (simp_all add: less_eq_what_def less_what_def)
  show "x \<le> x"
    by (cases x) (simp_all add: less_eq_what_def)
  show "x \<le> y \<Longrightarrow> y \<le> z \<Longrightarrow> x \<le> z"
    by (cases x; cases y; cases z) (simp_all add: less_eq_what_def)
  show "x \<le> y \<Longrightarrow> y \<le> x \<Longrightarrow> x = y"
    by (cases x; cases y) (simp_all add: less_eq_what_def)
  show "x \<le> y \<or> y \<le> x"
    by (cases x; cases y) (simp_all add: less_eq_what_def)
qed

end

text \<open>
  The loop over the sorted events, with the loop variables \<open>active\<close> and \<open>start\<close> as
  arguments: a \<open>START\<close> records \<open>pos\<close> when nothing is active, a \<open>STOP\<close> yields
  \<open>(start, pos)\<close> when the count returns to zero.
\<close>

fun merge_sweep :: "int \<Rightarrow> int \<Rightarrow> (int \<times> what) list \<Rightarrow> interval list" where
  "merge_sweep active start [] = []"
| "merge_sweep active start ((pos, START) # es) =
     merge_sweep (active + 1) (if active = 0 then pos else start) es"
| "merge_sweep active start ((pos, STOP) # es) =
     (if active - 1 = 0 then (start, pos) # merge_sweep (active - 1) start es
      else merge_sweep (active - 1) start es)"

text \<open>The list \<open>events\<close> after \<open>events.sort()\<close>: all starts, then all stops, sorted.\<close>

definition merge_events :: "interval list \<Rightarrow> (int \<times> what) list" where
  "merge_events intervals =
     sort (map (\<lambda>coord. (fst coord, START)) intervals @ map (\<lambda>coord. (snd coord, STOP)) intervals)"

definition merge_intervals :: "interval list \<Rightarrow> interval list" where
  "merge_intervals intervals = merge_sweep 0 0 (merge_events intervals)"

text \<open>
  \<open>merge_intervals\<close> above is the function applied to a list, as the program calls it.
  The source reads its argument twice: once in the list comprehension that collects the
  starts, and once more in the generator expression that \<open>events.extend\<close> consumes for
  the stops. A sequence (a list) gives all its items on both passes. An iterator, such as
  the generator object that \<open>merge_intervals\<close> itself returns, is exhausted by the first
  pass and gives nothing on the second. \<open>merge_intervals_iterable\<close> is the function on
  either kind of argument; for an iterator the items are the ones it has left to give.
\<close>

datatype 'a iterable = Sequence "'a list" | Iterator "'a list"

fun first_pass :: "'a iterable \<Rightarrow> 'a list" where
  "first_pass (Sequence xs) = xs"
| "first_pass (Iterator xs) = xs"

fun second_pass :: "'a iterable \<Rightarrow> 'a list" where
  "second_pass (Sequence xs) = xs"
| "second_pass (Iterator xs) = []"

definition merge_events_iterable :: "interval iterable \<Rightarrow> (int \<times> what) list" where
  "merge_events_iterable intervals =
     sort (map (\<lambda>coord. (fst coord, START)) (first_pass intervals)
           @ map (\<lambda>coord. (snd coord, STOP)) (second_pass intervals))"

definition merge_intervals_iterable :: "interval iterable \<Rightarrow> interval list" where
  "merge_intervals_iterable intervals = merge_sweep 0 0 (merge_events_iterable intervals)"

text \<open>
  \<open>complement_intervals\<close>: the loop with \<open>prev_end\<close> as argument, and the final
  \<open>if prev_end != chromosome_length\<close> at the end of the list.
\<close>

fun complement_loop :: "int \<Rightarrow> interval list \<Rightarrow> int \<Rightarrow> interval list" where
  "complement_loop prev_end [] chromosome_length =
     (if prev_end \<noteq> chromosome_length then [(prev_end, chromosome_length)] else [])"
| "complement_loop prev_end ((start, end) # intervals) chromosome_length =
     (if prev_end \<noteq> start then (prev_end, start) # complement_loop end intervals chromosome_length
      else complement_loop end intervals chromosome_length)"

definition complement_intervals :: "interval list \<Rightarrow> int \<Rightarrow> interval list" where
  "complement_intervals intervals chromosome_length = complement_loop 0 intervals chromosome_length"

section \<open>CoverageAggregator: records and \<open>subtract_intervals\<close>\<close>

text \<open>
  \<open>CoverageRecord\<close> has the slots \<open>chrom\<close>, \<open>start\<close>, \<open>end\<close>, \<open>coverage\<close>; the field names
  carry a prefix because \<open>start\<close> is already a field of \<open>variant\<close>. The coverage is a
  float, held as the rational it denotes.
\<close>

record coverage_record =
  cr_chrom :: string
  cr_start :: int
  cr_end :: int
  cr_coverage :: rat

text \<open>
  The event tags of \<open>subtract_intervals\<close> are the strings \<open>'iend'\<close>, \<open>'istart'\<close> and
  \<open>'rec'\<close>; \<open>tag_rank\<close> gives their place in Python's string order
  (\<open>'iend' < 'istart' < 'rec'\<close>).
\<close>

datatype tag = T_iend | T_istart | T_rec

fun tag_rank :: "tag \<Rightarrow> nat" where
  "tag_rank T_iend = 0"
| "tag_rank T_istart = 1"
| "tag_rank T_rec = 2"

instantiation tag :: linorder
begin

definition less_eq_tag :: "tag \<Rightarrow> tag \<Rightarrow> bool" where
  "less_eq_tag a b = (tag_rank a \<le> tag_rank b)"

definition less_tag :: "tag \<Rightarrow> tag \<Rightarrow> bool" where
  "less_tag a b = (tag_rank a < tag_rank b)"

instance
proof
  fix x y z :: tag
  show "(x < y) = (x \<le> y \<and> \<not> y \<le> x)"
    by (auto simp: less_eq_tag_def less_tag_def)
  show "x \<le> x"
    by (simp add: less_eq_tag_def)
  show "x \<le> y \<Longrightarrow> y \<le> z \<Longrightarrow> x \<le> z"
    by (simp add: less_eq_tag_def)
  show "x \<le> y \<Longrightarrow> y \<le> x \<Longrightarrow> x = y"
    by (cases x; cases y) (simp_all add: less_eq_tag_def)
  show "x \<le> y \<or> y \<le> x"
    by (auto simp: less_eq_tag_def)
qed

end

text \<open>
  An event is the tuple \<open>(pos, typ, record)\<close>, with \<open>None\<close> for the record of an interval
  boundary. \<open>events.sort()\<close> compares tuples component by component. Two tuples that agree
  on \<open>(pos, typ)\<close> are either two equal interval boundaries (third component \<open>None\<close> on
  both sides, so the tuples are equal) or two record events with the same start: then the
  sort has to compare two \<open>CoverageRecord\<close> objects, which define no order, and Python
  raises \<open>TypeError\<close>. Each element of \<open>records\<close> is an object of its own, as
  \<open>bin_coverages\<close> produces them. The generator yields the third component of the tuple.
\<close>

type_synonym sub_event = "int \<times> tag \<times> coverage_record option"

definition event_key :: "sub_event \<Rightarrow> int \<times> tag" where
  "event_key e = (fst e, fst (snd e))"

fun subtract_sweep :: "bool \<Rightarrow> sub_event list \<Rightarrow> coverage_record option list" where
  "subtract_sweep inside [] = []"
| "subtract_sweep inside ((pos, typ, record) # es) =
     (if typ = T_istart then subtract_sweep True es
      else if typ = T_iend then subtract_sweep False es
      else if \<not> inside then record # subtract_sweep inside es
      else subtract_sweep inside es)"

definition subtract_events :: "coverage_record list \<Rightarrow> interval list \<Rightarrow> sub_event list" where
  "subtract_events records intervals =
     map (\<lambda>r. (cr_start r, T_rec, Some r)) records
     @ map (\<lambda>i. (fst i, T_istart, None)) intervals
     @ map (\<lambda>i. (snd i, T_iend, None)) intervals"

definition subtract_intervals ::
  "coverage_record list \<Rightarrow> interval list \<Rightarrow> error + coverage_record option list" where
  "subtract_intervals records intervals =
     (if \<not> distinct (map cr_start records) then Inl TypeError
      else Inr (subtract_sweep False (sort_key event_key (subtract_events records intervals))))"

text \<open>A coverage record starting at \<open>s\<close>, for concrete instances.\<close>

definition record_at :: "int \<Rightarrow> coverage_record" where
  "record_at s = \<lparr>cr_chrom = ''1'', cr_start = s, cr_end = s + 10, cr_coverage = 30\<rparr>"

section \<open>VariantAdmission: \<open>variant_filter\<close>\<close>

text \<open>
  Strings are lists of characters. \<open>py_split c s\<close> is \<open>s.split(c)\<close> for a separator of one
  character: the result is never empty, and an empty string gives \<open>['']\<close>.
\<close>

fun py_split :: "char \<Rightarrow> string \<Rightarrow> string list" where
  "py_split c [] = [[]]"
| "py_split c (x # xs) =
     (if x = c then [] # py_split c xs
      else (x # hd (py_split c xs)) # tl (py_split c xs))"

text \<open>The slice \<open>s[2:-1]\<close>: without the last character, then without the first two.\<close>

definition slice_2_m1 :: "string \<Rightarrow> string" where
  "slice_2_m1 s = drop 2 (butlast s)"

text \<open>
  \<open>int(s)\<close> on a string, base 10, for ASCII input: surrounding whitespace is stripped, one
  sign is allowed, then digits follow, with single underscores allowed between digits.
  \<open>None\<close> stands for \<open>ValueError\<close>.
\<close>

definition is_digit :: "char \<Rightarrow> bool" where
  "is_digit c = (48 \<le> (of_char c :: nat) \<and> (of_char c :: nat) \<le> 57)"

definition digit_value :: "char \<Rightarrow> int" where
  "digit_value c = int (of_char c) - 48"

definition is_space :: "char \<Rightarrow> bool" where
  "is_space c = (let n = (of_char c :: nat) in (9 \<le> n \<and> n \<le> 13) \<or> (28 \<le> n \<and> n \<le> 32))"

fun parse_digits :: "int \<Rightarrow> string \<Rightarrow> int option" where
  "parse_digits acc [] = Some acc"
| "parse_digits acc [c] = (if is_digit c then Some (10 * acc + digit_value c) else None)"
| "parse_digits acc (c # d # ds) =
     (if is_digit c then parse_digits (10 * acc + digit_value c) (d # ds)
      else if c = CHR ''_'' \<and> is_digit d then parse_digits (10 * acc + digit_value d) ds
      else None)"

definition parse_number :: "string \<Rightarrow> int option" where
  "parse_number s =
     (case s of [] \<Rightarrow> None
      | c # cs \<Rightarrow> if is_digit c then parse_digits (digit_value c) cs else None)"

definition py_strip :: "string \<Rightarrow> string" where
  "py_strip s = rev (dropWhile is_space (rev (dropWhile is_space s)))"

definition py_int :: "string \<Rightarrow> int option" where
  "py_int s =
     (case py_strip s of [] \<Rightarrow> None
      | c # cs \<Rightarrow>
          if c = CHR ''-'' then map_option uminus (parse_number cs)
          else if c = CHR ''+'' then parse_number cs
          else parse_number (c # cs))"

text \<open>
  The three statements of the \<open>BND\<close> branch that read the partner out of \<open>ALT[0]\<close>:
  \<^verbatim>\<open>bnd_chrom, bnd_pos = variant.ALT[0][2:-1].split(':')\<close> raises \<open>ValueError\<close> unless the
  split has exactly two parts; then
  \<^verbatim>\<open>bnd_pos = int(variant.ALT[0].split(':')[1].split("]")[0].split("[")[0])\<close> and
  \<^verbatim>\<open>bnd_chrom = variant.ALT[0].split(':')[0].split("]")[-1].split("[")[-1]\<close>.
\<close>

definition bnd_partner :: "string \<Rightarrow> error + (string \<times> int)" where
  "bnd_partner alt =
     (case py_split CHR '':'' (slice_2_m1 alt) of
        [c0, p0] \<Rightarrow>
          (case py_split CHR '':'' alt of
             x0 # x1 # xs \<Rightarrow>
               (case py_int (hd (py_split CHR ''['' (hd (py_split CHR '']'' x1)))) of
                  None \<Rightarrow> Inl ValueError
                | Some bnd_pos \<Rightarrow>
                    Inr (last (py_split CHR ''['' (last (py_split CHR '']'' x0))), bnd_pos))
           | _ \<Rightarrow> Inl IndexError)
      | _ \<Rightarrow> Inl ValueError)"

text \<open>
  The frequency check at the end of the loop body:
  \<open>frequency is not None and frequency > max_frequency\<close>.
\<close>

definition too_frequent :: "rat \<Rightarrow> string \<Rightarrow> variant \<Rightarrow> bool" where
  "too_frequent max_frequency frequency_tag variant =
     (case FREQ (v_INFO variant) frequency_tag of
        None \<Rightarrow> False
      | Some frequency \<Rightarrow> frequency > max_frequency)"

text \<open>
  One pass of the loop body of \<open>variant_filter\<close>: \<open>Inr True\<close> when the variant is yielded,
  \<open>Inr False\<close> when a \<open>continue\<close> skips it, \<open>Inl\<close> when a statement raises. The branches are
  the \<open>if\<close>/\<open>elif\<close> chain of the source, in its order; the \<open>TRA\<close> branch only assigns two
  local variables, so it falls through to the frequency check like the implicit \<open>else\<close>.
\<close>

definition variant_admit :: "int \<Rightarrow> rat \<Rightarrow> string \<Rightarrow> variant \<Rightarrow> error + bool" where
  "variant_admit min_size max_frequency frequency_tag variant =
     (if truthy_int (END (v_INFO variant)) \<and> SVTYPE (v_INFO variant) \<noteq> Some ''TRA'' then
        (if \<bar>the (END (v_INFO variant)) - v_start variant\<bar> \<le> min_size then Inr False
         else Inr (\<not> too_frequent max_frequency frequency_tag variant))
      else if SVTYPE (v_INFO variant) = Some ''BND'' then
        (case v_ALT variant of
           [] \<Rightarrow> Inl IndexError
         | alt # alts \<Rightarrow>
             (case bnd_partner alt of
                Inl e \<Rightarrow> Inl e
              | Inr (bnd_chrom, bnd_pos) \<Rightarrow>
                  if bnd_chrom = v_CHROM variant \<and> \<bar>bnd_pos - v_start variant\<bar> < min_size
                  then Inr False
                  else Inr (\<not> too_frequent max_frequency frequency_tag variant)))
      else if SVTYPE (v_INFO variant) = Some ''TRA'' then
        Inr (\<not> too_frequent max_frequency frequency_tag variant)
      else Inr (\<not> too_frequent max_frequency frequency_tag variant))"

fun variant_filter :: "int \<Rightarrow> rat \<Rightarrow> string \<Rightarrow> variant list \<Rightarrow> variant generated" where
  "variant_filter min_size max_frequency frequency_tag [] = ([], None)"
| "variant_filter min_size max_frequency frequency_tag (variant # variants) =
     (case variant_admit min_size max_frequency frequency_tag variant of
        Inl e \<Rightarrow> ([], Some e)
      | Inr True \<Rightarrow>
          gen_yield variant (variant_filter min_size max_frequency frequency_tag variants)
      | Inr False \<Rightarrow> variant_filter min_size max_frequency frequency_tag variants)"

text \<open>
  The four forms of a breakend \<open>ALT\<close> allele in bracket notation, \<open>t[p[\<close>, \<open>t]p]\<close>, \<open>]p]t\<close>
  and \<open>[p[t\<close>, with \<open>p\<close> the partner \<open>chrom:pos\<close>: \<open>before\<close> and \<open>after\<close> are the bases on
  either side and \<open>bracket\<close> is \<open>[\<close> or \<open>]\<close>.
\<close>

definition bracket_alt :: "string \<Rightarrow> char \<Rightarrow> string \<Rightarrow> string \<Rightarrow> string \<Rightarrow> string" where
  "bracket_alt before bracket chrom pos after =
     before @ [bracket] @ chrom @ '':'' @ pos @ [bracket] @ after"

definition plain :: "string \<Rightarrow> bool" where
  "plain s = (CHR '':'' \<notin> set s \<and> CHR ''['' \<notin> set s \<and> CHR '']'' \<notin> set s)"

text \<open>Concrete records for the scenarios of the specification.\<close>

definition sv_record :: "string \<Rightarrow> int \<Rightarrow> string \<Rightarrow> int option \<Rightarrow> string \<Rightarrow> rat option \<Rightarrow> variant"
  where
  "sv_record chrom pos alt end_field svtype frq =
     \<lparr>v_CHROM = chrom, v_start = pos, v_REF = ''N'', v_ALT = [alt],
      v_INFO = \<lparr>END = end_field, SVTYPE = Some svtype, CHR2 = None,
                FREQ = (\<lambda>t. if t = ''FRQ'' then frq else None)\<rparr>\<rparr>"

section \<open>Python floats\<close>

text \<open>
  A Python float is an IEEE 754 binary64 number. A finite float is modelled by the
  rational number it denotes, and every arithmetic operation by the exact operation
  followed by \<open>fl\<close>, rounding to the nearest binary64 number, ties to the even significand.
  \<open>floor_log2 x\<close> is the exponent \<open>e\<close> with \<open>2^e \<le> x < 2^(e+1)\<close> for positive \<open>x\<close>; the
  spacing of the binary64 numbers around \<open>x\<close> is \<open>2^(e - 52)\<close>, and \<open>2^(-1074)\<close> in the
  subnormal range below \<open>2^(-1022)\<close>. Infinities and NaN are not values of the model: where
  Python raises \<open>OverflowError\<close> for a result beyond the largest finite float, the
  operations below return that error.
\<close>

type_synonym pyfloat = rat

definition round_half_even :: "rat \<Rightarrow> int" where
  "round_half_even x =
     (let f = \<lfloor>x\<rfloor>; d = x - of_int f
      in if d < 1 / 2 then f else if 1 / 2 < d then f + 1 else if even f then f else f + 1)"

definition floor_log2 :: "rat \<Rightarrow> int" where
  "floor_log2 x = (if 1 \<le> x then bitlen \<lfloor>x\<rfloor> - 1 else - bitlen (\<lceil>1 / x\<rceil> - 1))"

definition ulp_exp :: "rat \<Rightarrow> int" where
  "ulp_exp x = max (floor_log2 \<bar>x\<bar>) (- 1022) - 52"

definition fl :: "rat \<Rightarrow> pyfloat" where
  "fl x = (if x = 0 then 0 else of_int (round_half_even (x / 2 powi ulp_exp x)) * 2 powi ulp_exp x)"

text \<open>A rounded result at or beyond \<open>2^1024\<close> is not a finite float.\<close>

definition overflows :: "rat \<Rightarrow> bool" where
  "overflows x = (2 ^ 1024 \<le> \<bar>x\<bar>)"

text \<open>\<open>a / b\<close> on two Python ints: true division, correctly rounded.\<close>

definition int_truediv :: "int \<Rightarrow> int \<Rightarrow> error + pyfloat" where
  "int_truediv a b =
     (if b = 0 then Inl ZeroDivisionError
      else if overflows (fl (of_int a / of_int b)) then Inl OverflowError
      else Inr (fl (of_int a / of_int b)))"

text \<open>\<open>float(i)\<close>, the conversion that \<open>i * x\<close> and \<open>x / i\<close> apply to an int operand.\<close>

definition int_to_float :: "int \<Rightarrow> error + pyfloat" where
  "int_to_float i = (if overflows (fl (of_int i)) then Inl OverflowError else Inr (fl (of_int i)))"

text \<open>\<open>int(x)\<close> on a float truncates toward zero.\<close>

definition py_trunc :: "pyfloat \<Rightarrow> int" where
  "py_trunc x = (if 0 \<le> x then \<lfloor>x\<rfloor> else \<lceil>x\<rceil>)"

text \<open>
  \<open>int(i * x)\<close> for an int \<open>i\<close> and a float \<open>x\<close>: \<open>float(i)\<close> raises \<open>OverflowError\<close> when \<open>i\<close>
  is too large; a product beyond the finite range is an infinity, on which \<open>int\<close> raises
  \<open>OverflowError\<close> as well.
\<close>

definition int_of_int_times_float :: "int \<Rightarrow> pyfloat \<Rightarrow> error + int" where
  "int_of_int_times_float i x =
     (case int_to_float i of
        Inl e \<Rightarrow> Inl e
      | Inr fi \<Rightarrow> if overflows (fl (fi * x)) then Inl OverflowError
                 else Inr (py_trunc (fl (fi * x))))"

text \<open>The float operations of \<open>triangle_probes\<close>, on operands in the finite range.\<close>

definition float_div_int :: "pyfloat \<Rightarrow> int \<Rightarrow> error + pyfloat" where
  "float_div_int x n =
     (if n = 0 then Inl ZeroDivisionError else Inr (fl (x / fl (of_int n))))"

definition float_mul_int :: "pyfloat \<Rightarrow> int \<Rightarrow> pyfloat" where
  "float_mul_int x n = fl (x * fl (of_int n))"

definition float_sub :: "pyfloat \<Rightarrow> pyfloat \<Rightarrow> pyfloat" where
  "float_sub x y = fl (x - y)"

definition float_add :: "pyfloat \<Rightarrow> pyfloat \<Rightarrow> pyfloat" where
  "float_add x y = fl (x + y)"

section \<open>ProbeGeometry: \<open>spaced_probes\<close> and \<open>triangle_probes\<close>\<close>

text \<open>
  \<open>spaced_probes\<close> is a generator around a \<open>while\<close> loop that may not end, so it is run
  with fuel: \<open>spaced_loop k\<close> gives the values the loop yields in at most \<open>k\<close> passes and
  how it stands then: \<open>Done\<close> when the loop condition \<open>pos <= end\<close> has failed,
  \<open>Raised e\<close> when computing the next position raised \<open>e\<close>, \<open>Running\<close> when the fuel is
  used up while the condition still holds.
\<close>

datatype status = Done | Raised error | Running

fun spaced_loop :: "nat \<Rightarrow> int \<Rightarrow> int \<Rightarrow> pyfloat \<Rightarrow> int \<Rightarrow> int \<Rightarrow> int list \<times> status" where
  "spaced_loop 0 start end spacing i pos = ([], if pos \<le> end then Running else Done)"
| "spaced_loop (Suc k) start end spacing i pos =
     (if pos \<le> end then
        (case int_of_int_times_float (i + 1) spacing of
           Inl e \<Rightarrow> ([pos], Raised e)
         | Inr d \<Rightarrow>
             (pos # fst (spaced_loop k start end spacing (i + 1) (start + d)),
              snd (spaced_loop k start end spacing (i + 1) (start + d))))
      else ([], Done))"

text \<open>
  The statements before the loop: \<open>l = end - start\<close>, \<open>n = l // probe_spacing\<close> (floor
  division, \<open>ZeroDivisionError\<close> for a zero spacing), \<open>spacing = l / max(n, 2)\<close> (true
  division on ints), \<open>i = 0\<close>, \<open>pos = start\<close>.
\<close>

definition spaced_probes :: "nat \<Rightarrow> int \<Rightarrow> int \<Rightarrow> int \<Rightarrow> int list \<times> status" where
  "spaced_probes fuel start end probe_spacing =
     (if probe_spacing = 0 then ([], Raised ZeroDivisionError)
      else
        (let l = end - start; n = l div probe_spacing
         in case int_truediv l (max n 2) of
              Inl e \<Rightarrow> ([], Raised e)
            | Inr spacing \<Rightarrow> spaced_loop fuel start end spacing 0 start))"

text \<open>
  \<open>triangle_probes\<close>: \<open>pos_step = (width - 1) // (steps - 1)\<close>,
  \<open>height_step = height / ((steps - 1) // 2)\<close>, and for \<open>i\<close> in
  \<open>range(-(steps // 2), steps // 2 + 1)\<close> the pair
  \<open>(center + i * pos_step, height - height_step * abs(i) + 0.1)\<close>. The height is a float;
  the literal \<open>0.1\<close> is the float nearest to one tenth. Both divisions come before the
  loop, so the generator either raises at once or yields the whole list.
\<close>

definition triangle_probes ::
  "int \<Rightarrow> pyfloat \<Rightarrow> int \<Rightarrow> int \<Rightarrow> error + (int \<times> pyfloat) list" where
  "triangle_probes center height width steps =
     (if steps - 1 = 0 then Inl ZeroDivisionError
      else
        (let pos_step = (width - 1) div (steps - 1)
         in case float_div_int height ((steps - 1) div 2) of
              Inl e \<Rightarrow> Inl e
            | Inr height_step \<Rightarrow>
                Inr (map (\<lambda>i. (center + i * pos_step,
                                float_add (float_sub height (float_mul_int height_step \<bar>i\<bar>))
                                          (fl (1 / 10))))
                         [- (steps div 2) .. steps div 2])))"

section \<open>CoverageAggregator: the mean coverage\<close>

text \<open>
  \<open>compute_mean_coverage\<close> over the records that \<open>parse_coverages\<close> yields: \<open>total\<close>
  starts at the int \<open>0\<close> and takes one float addition per record, \<open>n\<close> counts the records,
  and the function returns \<open>total / n\<close>, which raises \<open>ZeroDivisionError\<close> when \<open>n\<close> is
  \<open>0\<close>.
\<close>

definition compute_mean_coverage :: "coverage_record list \<Rightarrow> error + pyfloat" where
  "compute_mean_coverage records =
     (let total = foldl float_add 0 (map cr_coverage records);
          n = int (length records)
      in if n = 0 then Inl ZeroDivisionError else Inr (fl (total / fl (of_int n))))"

text \<open>
  The first two statements of \<open>add_coverage_probes\<close>: the records on known contigs are
  kept, and \<open>mean_coverage = sum(r.coverage for r in coverages) / len(coverages)\<close>. The sum
  adds the floats from left to right, starting from the int \<open>0\<close>.
\<close>

definition add_coverage_probes_mean ::
  "(string \<rightharpoonup> int) \<Rightarrow> coverage_record list \<Rightarrow> error + pyfloat" where
  "add_coverage_probes_mean contig_lengths records =
     (let coverages = filter (\<lambda>r. cr_chrom r \<in> dom contig_lengths) records;
          total = foldl float_add 0 (map cr_coverage coverages);
          n = int (length coverages)
      in if n = 0 then Inl ZeroDivisionError else Inr (fl (total / fl (of_int n))))"

section \<open>Notions used to state and prove the properties\<close>

text \<open>
  The positions an interval list covers, reading each pair as the half-open interval
  \<open>[start, end)\<close>; lists whose intervals are ordered with a gap between neighbours
  (\<open>gapped\<close>); and lists whose intervals are pairwise disjoint as half-open sets
  (\<open>non_overlapping\<close>). \<open>interleaved\<close> is the event list of a gapped interval list.
\<close>

definition covered :: "interval list \<Rightarrow> int set" where
  "covered ivs = (\<Union>iv \<in> set ivs. {fst iv ..< snd iv})"

fun gapped :: "interval list \<Rightarrow> bool" where
  "gapped [] = True"
| "gapped (iv # ivs) = (fst iv \<le> snd iv \<and> (\<forall>jv \<in> set ivs. snd iv < fst jv) \<and> gapped ivs)"

fun non_overlapping :: "interval list \<Rightarrow> bool" where
  "non_overlapping [] = True"
| "non_overlapping (iv # ivs) =
     ((\<forall>jv \<in> set ivs. {fst iv ..< snd iv} \<inter> {fst jv ..< snd jv} = {}) \<and> non_overlapping ivs)"

fun interleaved :: "interval list \<Rightarrow> (int \<times> what) list" where
  "interleaved [] = []"
| "interleaved (iv # ivs) = (fst iv, START) # (snd iv, STOP) # interleaved ivs"

text \<open>
  For the proof that the sweep keeps the union: an event list is well nested from a count
  \<open>a\<close> when no prefix closes more than is open and the count ends at zero; \<open>depth a es x\<close>
  is the count after all events at positions up to \<open>x\<close>.
\<close>

fun well_nested :: "int \<Rightarrow> (int \<times> what) list \<Rightarrow> bool" where
  "well_nested a [] = (a = 0)"
| "well_nested a ((p, START) # es) = well_nested (a + 1) es"
| "well_nested a ((p, STOP) # es) = (1 \<le> a \<and> well_nested (a - 1) es)"

definition weight :: "int \<Rightarrow> int \<times> what \<Rightarrow> int" where
  "weight x e = (if fst e \<le> x then (if snd e = START then 1 else - 1) else 0)"

definition depth :: "int \<Rightarrow> (int \<times> what) list \<Rightarrow> int \<Rightarrow> int" where
  "depth a es x = a + sum_list (map (weight x) es)"

text \<open>
  For \<open>subtract_intervals\<close>: \<open>flag_at b es p\<close> is the value of \<open>inside\<close> after the interval
  boundaries of \<open>es\<close> at positions up to \<open>p\<close>; \<open>has_open es p\<close> holds when some
  \<open>istart\<close> at a position up to \<open>p\<close> is followed by no \<open>iend\<close> at a position up to \<open>p\<close>;
  \<open>dropped_at intervals p\<close> says the same of the interval list.
\<close>

fun flag_at :: "bool \<Rightarrow> sub_event list \<Rightarrow> int \<Rightarrow> bool" where
  "flag_at b [] p = b"
| "flag_at b ((pos, typ, record) # es) p =
     (if pos \<le> p \<and> typ = T_istart then flag_at True es p
      else if pos \<le> p \<and> typ = T_iend then flag_at False es p
      else flag_at b es p)"

definition no_iend :: "sub_event list \<Rightarrow> int \<Rightarrow> bool" where
  "no_iend es p = (\<forall>e \<in> set es. \<not> (fst e \<le> p \<and> fst (snd e) = T_iend))"

fun has_open :: "sub_event list \<Rightarrow> int \<Rightarrow> bool" where
  "has_open [] p = False"
| "has_open (e # es) p =
     ((fst e \<le> p \<and> fst (snd e) = T_istart \<and> no_iend es p) \<or> has_open es p)"

definition rec_events_ok :: "sub_event list \<Rightarrow> bool" where
  "rec_events_ok es = (\<forall>e \<in> set es. fst (snd e) = T_rec \<longrightarrow> (\<exists>r. e = (cr_start r, T_rec, Some r)))"

definition dropped_at :: "interval list \<Rightarrow> int \<Rightarrow> bool" where
  "dropped_at intervals p =
     (\<exists>iv \<in> set intervals. fst iv \<le> p \<and> (\<forall>jv \<in> set intervals. snd jv \<le> p \<longrightarrow> snd jv \<le> fst iv))"

section \<open>Properties of \<open>events\<close>\<close>

lemma events_interval_end_le_start:
  "ev \<in> set (fst (events cl vs)) \<Longrightarrow> ev_end ev = Some e \<Longrightarrow> e \<le> ev_start ev"
proof (induction vs)
  case Nil
  then show ?case by simp
next
  case (Cons v vs)
  then show ?case
    by (auto simp: gen_yield_def Let_def split: if_splits)
qed

text \<open>
  C1. The claim: every interval Event yielded by \<open>events\<close> has \<open>start < end\<close>. The source
  swaps the pair when \<open>start <= end\<close>, so the ordinary deletion at \<open>start = 100\<close>,
  \<open>END = 5200\<close> is yielded with \<open>start = 5200\<close> and \<open>end = 100\<close>.
\<close>

theorem events_deletion_reversed:
  "map (\<lambda>ev. (ev_start ev, ev_end ev)) (fst (events [''1'' \<mapsto> 249250621] [deletion_100_5200]))
     = [(5200, Some 100)]"
  by (simp add: deletion_100_5200_def gen_yield_def)

section \<open>Properties of the interval algebra\<close>

lemma depth_Nil [simp]: "depth a [] x = a"
  by (simp add: depth_def)

lemma depth_Cons: "depth a (e # es) x = depth (a + weight x e) es x"
  by (simp add: depth_def)

lemma depth_all_later: "\<forall>e \<in> set es. x < fst e \<Longrightarrow> depth a es x = a"
  by (induction es arbitrary: a) (auto simp: depth_def weight_def)

lemma covered_Nil [simp]: "covered [] = {}"
  by (simp add: covered_def)

lemma covered_Cons [simp]: "covered (iv # ivs) = {fst iv ..< snd iv} \<union> covered ivs"
  by (simp add: covered_def)

lemma sweep_covered:
  assumes "sorted (map fst es)" and "well_nested a es"
    and "0 < a \<longrightarrow> (\<forall>e \<in> set es. s \<le> fst e)" and "0 \<le> a"
  shows "covered (merge_sweep a s es) = {x. (0 < a \<longrightarrow> s \<le> x) \<and> 0 < depth a es x}"
  using assms
proof (induction a s es rule: merge_sweep.induct)
  case (1 active start)
  then show ?case by auto
next
  case (2 active start pos es)
  have later: "\<forall>e \<in> set es. pos \<le> fst e"
    using "2.prems"(1) by auto
  have IH: "covered (merge_sweep (active + 1) (if active = 0 then pos else start) es)
      = {x. (if active = 0 then pos else start) \<le> x \<and> 0 < depth (active + 1) es x}"
    using "2.IH" "2.prems" later by auto
  show ?case
  proof (rule set_eqI)
    fix x
    show "x \<in> covered (merge_sweep active start ((pos, START) # es))
      \<longleftrightarrow> x \<in> {x. (0 < active \<longrightarrow> start \<le> x) \<and> 0 < depth active ((pos, START) # es) x}"
    proof (cases "pos \<le> x")
      case True
      then show ?thesis
        using IH "2.prems" by (auto simp: depth_Cons weight_def)
    next
      case False
      then have "\<forall>e \<in> set es. x < fst e" using later by auto
      then have "depth b es x = b" for b by (rule depth_all_later)
      then show ?thesis
        using IH "2.prems" False by (auto simp: depth_Cons weight_def)
    qed
  qed
next
  case (3 active start pos es)
  have later: "\<forall>e \<in> set es. pos \<le> fst e"
    using "3.prems"(1) by auto
  have pos: "1 \<le> active" and wn: "well_nested (active - 1) es"
    using "3.prems"(2) by auto
  have sp: "start \<le> pos" using "3.prems"(3) pos by auto
  show ?case
  proof (cases "active - 1 = 0")
    case True
    have IH: "covered (merge_sweep (active - 1) start es) = {x. 0 < depth 0 es x}"
      using "3.IH"(1)[OF True] "3.prems"(1) wn True by auto
    show ?thesis
    proof (rule set_eqI)
      fix x
      show "x \<in> covered (merge_sweep active start ((pos, STOP) # es))
        \<longleftrightarrow> x \<in> {x. (0 < active \<longrightarrow> start \<le> x) \<and> 0 < depth active ((pos, STOP) # es) x}"
      proof (cases "pos \<le> x")
        case True
        then show ?thesis
          using IH \<open>active - 1 = 0\<close> sp by (auto simp: depth_Cons weight_def)
      next
        case False
        then have "\<forall>e \<in> set es. x < fst e" using later by auto
        then have "depth b es x = b" for b by (rule depth_all_later)
        then show ?thesis
          using IH \<open>active - 1 = 0\<close> False by (auto simp: depth_Cons weight_def)
      qed
    qed
  next
    case False
    then have big: "0 < active - 1" using pos by simp
    have IH: "covered (merge_sweep (active - 1) start es)
         = {x. start \<le> x \<and> 0 < depth (active - 1) es x}"
      using "3.IH"(2)[OF False] "3.prems" wn big by auto
    show ?thesis
    proof (rule set_eqI)
      fix x
      show "x \<in> covered (merge_sweep active start ((pos, STOP) # es))
        \<longleftrightarrow> x \<in> {x. (0 < active \<longrightarrow> start \<le> x) \<and> 0 < depth active ((pos, STOP) # es) x}"
      proof (cases "pos \<le> x")
        case True
        then show ?thesis
          using IH False big by (auto simp: depth_Cons weight_def)
      next
        case False
        then have "\<forall>e \<in> set es. x < fst e" using later by auto
        then have "depth b es x = b" for b by (rule depth_all_later)
        then show ?thesis
          using IH \<open>active - 1 \<noteq> 0\<close> big False by (auto simp: depth_Cons weight_def)
      qed
    qed
  qed
qed


lemma well_nested_insort_STOP:
  "well_nested k es \<Longrightarrow> 0 \<le> k \<Longrightarrow> well_nested (k + 1) (insort (b, STOP) es)"
proof (induction es arbitrary: k)
  case Nil
  then show ?case by simp
next
  case (Cons e es)
  obtain p w where e: "e = (p, w)" by (cases e)
  show ?case
  proof (cases w)
    case START
    then show ?thesis using Cons.prems Cons.IH[of "k + 1"] e by auto
  next
    case STOP
    then show ?thesis using Cons.prems Cons.IH[of "k - 1"] e by auto
  qed
qed

lemma well_nested_insort_pair:
  "well_nested k es \<Longrightarrow> 0 \<le> k \<Longrightarrow> a \<le> b
     \<Longrightarrow> well_nested k (insort (a, START) (insort (b, STOP) es))"
proof (induction es arbitrary: k)
  case Nil
  then show ?case by (simp add: less_eq_what_def)
next
  case (Cons e es)
  obtain p w where e: "e = (p, w)" by (cases e)
  have ab: "(a, START) \<le> (b, STOP)" using Cons.prems(3) by (simp add: less_eq_what_def)
  show ?case
  proof (cases "(b, STOP) \<le> e")
    case True
    then have "insort (a, START) (insort (b, STOP) (e # es)) = (a, START) # (b, STOP) # e # es"
      using ab by simp
    then show ?thesis using Cons.prems by simp
  next
    case False
    show ?thesis
    proof (cases "(a, START) \<le> e")
      case True
      then have "insort (a, START) (insort (b, STOP) (e # es))
          = (a, START) # insort (b, STOP) (e # es)"
        using False by simp
      then show ?thesis
        using well_nested_insort_STOP[OF Cons.prems(1) Cons.prems(2), of b] by simp
    next
      case False2: False
      then have eq: "insort (a, START) (insort (b, STOP) (e # es))
          = e # insort (a, START) (insort (b, STOP) es)"
        using False by simp
      show ?thesis
      proof (cases w)
        case START
        then show ?thesis using eq e Cons.prems Cons.IH[of "k + 1"] by simp
      next
        case STOP
        then show ?thesis using eq e Cons.prems Cons.IH[of "k - 1"] by simp
      qed
    qed
  qed
qed

lemma merge_events_Cons:
  "merge_events (iv # ivs) = insort (fst iv, START) (insort (snd iv, STOP) (merge_events ivs))"
proof -
  have "sort ((fst iv, START) # map (\<lambda>coord. (fst coord, START)) ivs
          @ (snd iv, STOP) # map (\<lambda>coord. (snd coord, STOP)) ivs)
        = insort (fst iv, START) (insort (snd iv, STOP) (merge_events ivs))"
  proof (rule properties_for_sort)
    show "mset (insort (fst iv, START) (insort (snd iv, STOP) (merge_events ivs)))
        = mset ((fst iv, START) # map (\<lambda>coord. (fst coord, START)) ivs
            @ (snd iv, STOP) # map (\<lambda>coord. (snd coord, STOP)) ivs)"
      by (simp add: merge_events_def)
    show "sorted (insort (fst iv, START) (insort (snd iv, STOP) (merge_events ivs)))"
      by (simp add: merge_events_def sorted_insort)
  qed
  then show ?thesis by (simp add: merge_events_def)
qed

lemma well_nested_merge_events:
  "\<forall>iv \<in> set ivs. fst iv \<le> snd iv \<Longrightarrow> well_nested 0 (merge_events ivs)"
proof (induction ivs)
  case Nil
  then show ?case by (simp add: merge_events_def)
next
  case (Cons iv ivs)
  then show ?case by (simp add: merge_events_Cons well_nested_insort_pair)
qed

lemma sorted_merge_events: "sorted (merge_events ivs)"
  by (simp add: merge_events_def)

lemma sum_list_map_sort:
  fixes f :: "'a::linorder \<Rightarrow> int"
  shows "sum_list (map f (sort xs)) = sum_list (map f xs)"
proof -
  have "sum_list (map f (sort xs)) = sum_mset (image_mset f (mset (sort xs)))"
    by (metis mset_map sum_mset_sum_list)
  also have "\<dots> = sum_mset (image_mset f (mset xs))" by simp
  also have "\<dots> = sum_list (map f xs)" by (metis mset_map sum_mset_sum_list)
  finally show ?thesis .
qed

lemma depth_merge_events:
  "depth 0 (merge_events ivs) x
     = sum_list (map (\<lambda>iv. weight x (fst iv, START) + weight x (snd iv, STOP)) ivs)"
proof -
  have "depth 0 (merge_events ivs) x
      = sum_list (map (weight x) (map (\<lambda>coord. (fst coord, START)) ivs
           @ map (\<lambda>coord. (snd coord, STOP)) ivs))"
    by (simp add: depth_def merge_events_def sum_list_map_sort)
  also have "\<dots> = sum_list (map (\<lambda>iv. weight x (fst iv, START) + weight x (snd iv, STOP)) ivs)"
    by (induction ivs) (simp_all add: comp_def)
  finally show ?thesis .
qed

lemma depth_merge_events_pos:
  assumes "\<forall>iv \<in> set ivs. fst iv \<le> snd iv"
  shows "0 < depth 0 (merge_events ivs) x \<longleftrightarrow> x \<in> covered ivs"
proof -
  have "0 \<le> sum_list (map (\<lambda>iv. weight x (fst iv, START) + weight x (snd iv, STOP)) ivs)
      \<and> (0 < sum_list (map (\<lambda>iv. weight x (fst iv, START) + weight x (snd iv, STOP)) ivs)
          \<longleftrightarrow> x \<in> covered ivs)"
    using assms
  proof (induction ivs)
    case Nil
    then show ?case by simp
  next
    case (Cons iv ivs)
    then show ?case by (auto simp: weight_def)
  qed
  then show ?thesis by (simp add: depth_merge_events)
qed

lemma sorted_map_fst: "sorted (es :: (int \<times> what) list) \<Longrightarrow> sorted (map fst es)"
  by (induction es) (auto simp: less_eq_prod_def)

lemma covered_merge_intervals:
  assumes "\<forall>iv \<in> set ivs. fst iv \<le> snd iv"
  shows "covered (merge_intervals ivs) = covered ivs"
proof -
  have "sorted (map fst (merge_events ivs))"
    using sorted_merge_events[of ivs] by (rule sorted_map_fst)
  then have "covered (merge_sweep 0 0 (merge_events ivs)) = {x. 0 < depth 0 (merge_events ivs) x}"
    using sweep_covered[of "merge_events ivs" 0 0] well_nested_merge_events[OF assms] by simp
  then show ?thesis
    using depth_merge_events_pos[OF assms] by (auto simp: merge_intervals_def)
qed


lemma merge_sweep_origin:
  "iv \<in> set (merge_sweep a s es)
     \<Longrightarrow> ((1 \<le> a \<and> fst iv = s) \<or> (fst iv, START) \<in> set es) \<and> (snd iv, STOP) \<in> set es"
proof (induction a s es rule: merge_sweep.induct)
  case (1 active start)
  then show ?case by simp
next
  case (2 active start pos es)
  then show ?case by (auto split: if_splits)
next
  case (3 active start pos es)
  then show ?case by (auto split: if_splits)
qed

lemma gapped_merge_sweep:
  "sorted es \<Longrightarrow> (1 \<le> a \<longrightarrow> (\<forall>e \<in> set es. (s, START) \<le> e)) \<Longrightarrow> gapped (merge_sweep a s es)"
proof (induction a s es rule: merge_sweep.induct)
  case (1 active start)
  then show ?case by simp
next
  case (2 active start pos es)
  have "1 \<le> active + 1 \<longrightarrow> (\<forall>e \<in> set es. ((if active = 0 then pos else start), START) \<le> e)"
    using "2.prems" by auto
  then show ?case using "2.IH" "2.prems"(1) by simp
next
  case (3 active start pos es)
  show ?case
  proof (cases "active - 1 = 0")
    case True
    have le: "start \<le> pos" using "3.prems"(2) True by (auto simp: less_eq_prod_def)
    have rest: "gapped (merge_sweep (active - 1) start es)"
      using "3.IH"(1)[OF True] "3.prems"(1) True by simp
    have "pos < fst jv" if "jv \<in> set (merge_sweep (active - 1) start es)" for jv
    proof -
      have "(fst jv, START) \<in> set es"
        using merge_sweep_origin[OF that] True by auto
      then have "(pos, STOP) \<le> (fst jv, START)" using "3.prems"(1) by auto
      then show ?thesis by (auto simp: less_eq_prod_def less_eq_what_def)
    qed
    then show ?thesis using True le rest by simp
  next
    case False
    have "1 \<le> active - 1 \<longrightarrow> (\<forall>e \<in> set es. (start, START) \<le> e)"
      using "3.prems" by auto
    then show ?thesis using False "3.IH"(2)[OF False] "3.prems"(1) by simp
  qed
qed

lemma gapped_merge_intervals: "gapped (merge_intervals ivs)"
  unfolding merge_intervals_def by (rule gapped_merge_sweep) (simp_all add: sorted_merge_events)

lemma mset_interleaved:
  "mset (interleaved ivs)
     = mset (map (\<lambda>coord. (fst coord, START)) ivs @ map (\<lambda>coord. (snd coord, STOP)) ivs)"
  by (induction ivs) simp_all

lemma set_interleaved:
  "e \<in> set (interleaved ivs) \<Longrightarrow> \<exists>iv \<in> set ivs. e = (fst iv, START) \<or> e = (snd iv, STOP)"
  by (induction ivs) auto

lemma gapped_fst_le_snd: "gapped ivs \<Longrightarrow> iv \<in> set ivs \<Longrightarrow> fst iv \<le> snd iv"
  by (induction ivs) auto

lemma sorted_interleaved: "gapped ivs \<Longrightarrow> sorted (interleaved ivs)"
proof (induction ivs)
  case Nil
  then show ?case by simp
next
  case (Cons iv ivs)
  have later: "(snd iv, STOP) \<le> e" if mem: "e \<in> set (interleaved ivs)" for e
  proof -
    obtain jv where jv: "jv \<in> set ivs" "e = (fst jv, START) \<or> e = (snd jv, STOP)"
      using set_interleaved[OF mem] by blast
    have "snd iv < fst jv" using Cons.prems jv(1) by simp
    moreover have "gapped ivs" using Cons.prems by simp
    then have "fst jv \<le> snd jv" using jv(1) by (rule gapped_fst_le_snd)
    ultimately show ?thesis using jv(2) by (auto simp: less_eq_prod_def)
  qed
  have first: "(fst iv, START) \<le> (snd iv, STOP)"
    using Cons.prems by (simp add: less_eq_prod_def less_eq_what_def)
  have "(fst iv, START) \<le> e" if "e \<in> set (interleaved ivs)" for e
    using first later[OF that] by (rule order_trans)
  then show ?case using Cons first later by auto
qed

lemma merge_events_gapped: "gapped ivs \<Longrightarrow> merge_events ivs = interleaved ivs"
  unfolding merge_events_def
  by (rule properties_for_sort) (simp_all add: mset_interleaved sorted_interleaved)

lemma merge_sweep_interleaved: "merge_sweep 0 s (interleaved ivs) = ivs"
  by (induction ivs arbitrary: s) simp_all

lemma merge_intervals_gapped: "gapped ivs \<Longrightarrow> merge_intervals ivs = ivs"
  by (simp add: merge_intervals_def merge_events_gapped merge_sweep_interleaved)

lemma merge_intervals_idem: "merge_intervals (merge_intervals ivs) = merge_intervals ivs"
  by (rule merge_intervals_gapped) (rule gapped_merge_intervals)

lemma covered_gapped_later: "\<forall>jv \<in> set ivs. e < fst jv \<Longrightarrow> covered ivs \<subseteq> {x. e < x}"
  by (auto simp: covered_def)

lemma complement_loop_covered:
  "gapped ivs \<Longrightarrow> \<forall>iv \<in> set ivs. prev \<le> fst iv \<and> snd iv \<le> L
     \<Longrightarrow> covered (complement_loop prev ivs L) = {prev ..< L} - covered ivs"
proof (induction prev ivs L rule: complement_loop.induct)
  case (1 prev_end chromosome_length)
  then show ?case by simp
next
  case (2 prev_end start "end" intervals chromosome_length)
  have bounds: "prev_end \<le> start" "start \<le> end" "end \<le> chromosome_length"
    using "2.prems" by auto
  have later: "\<forall>jv \<in> set intervals. end < fst jv" using "2.prems"(1) by simp
  have g: "gapped intervals" using "2.prems"(1) by simp
  have b: "\<forall>iv \<in> set intervals. end \<le> fst iv \<and> snd iv \<le> chromosome_length"
    using later "2.prems"(2) by auto
  have rest: "covered (complement_loop end intervals chromosome_length)
      = {end ..< chromosome_length} - covered intervals"
  proof (cases "prev_end \<noteq> start")
    case True
    then show ?thesis using "2.IH"(1) g b by simp
  next
    case False
    then show ?thesis using "2.IH"(2) g b by simp
  qed
  have sub: "covered intervals \<subseteq> {x. end < x}" using later by (rule covered_gapped_later)
  show ?case
    using rest sub bounds by (auto split: if_splits)
qed

lemma complement_loop_bounds:
  "gapped ivs \<Longrightarrow> \<forall>iv \<in> set ivs. prev \<le> fst iv \<and> snd iv \<le> L \<Longrightarrow> prev \<le> L
     \<Longrightarrow> c \<in> set (complement_loop prev ivs L) \<Longrightarrow> prev \<le> fst c \<and> fst c < snd c \<and> snd c \<le> L"
proof (induction prev ivs L rule: complement_loop.induct)
  case (1 prev_end chromosome_length)
  then show ?case by (auto split: if_splits)
next
  case (2 prev_end start "end" intervals chromosome_length)
  have bounds: "prev_end \<le> start" "start \<le> end" "end \<le> chromosome_length"
    using "2.prems" by auto
  have later: "\<forall>jv \<in> set intervals. end < fst jv" using "2.prems"(1) by simp
  have g: "gapped intervals" using "2.prems"(1) by simp
  have b: "\<forall>iv \<in> set intervals. end \<le> fst iv \<and> snd iv \<le> chromosome_length"
    using later "2.prems"(2) by auto
  show ?case
  proof (cases "c = (prev_end, start) \<and> prev_end \<noteq> start")
    case True
    then show ?thesis using bounds by auto
  next
    case False
    then have "c \<in> set (complement_loop end intervals chromosome_length)"
      using "2.prems"(4) by (auto split: if_splits)
    then have "end \<le> fst c \<and> fst c < snd c \<and> snd c \<le> chromosome_length"
      using "2.IH" g b bounds by (cases "prev_end \<noteq> start") auto
    then show ?thesis using bounds by auto
  qed
qed


lemma complement_loop_non_overlapping:
  "gapped ivs \<Longrightarrow> \<forall>iv \<in> set ivs. prev \<le> fst iv \<and> snd iv \<le> L \<Longrightarrow> prev \<le> L
     \<Longrightarrow> non_overlapping (complement_loop prev ivs L)"
proof (induction prev ivs L rule: complement_loop.induct)
  case (1 prev_end chromosome_length)
  then show ?case by simp
next
  case (2 prev_end start "end" intervals chromosome_length)
  have bounds: "prev_end \<le> start" "start \<le> end" "end \<le> chromosome_length"
    using "2.prems" by auto
  have later: "\<forall>jv \<in> set intervals. end < fst jv" using "2.prems"(1) by simp
  have g: "gapped intervals" using "2.prems"(1) by simp
  have b: "\<forall>iv \<in> set intervals. end \<le> fst iv \<and> snd iv \<le> chromosome_length"
    using later "2.prems"(2) by auto
  have rest: "non_overlapping (complement_loop end intervals chromosome_length)"
    using "2.IH" g b bounds by (cases "prev_end \<noteq> start") auto
  have "{prev_end ..< start} \<inter> {fst c ..< snd c} = {}"
    if c: "c \<in> set (complement_loop end intervals chromosome_length)" for c
  proof -
    have "end \<le> fst c" using complement_loop_bounds[OF g b bounds(3) c] by simp
    then show ?thesis using bounds by auto
  qed
  then show ?case using rest by simp
qed

lemma merge_intervals_bounds:
  assumes "iv \<in> set (merge_intervals ivs)"
  shows "(\<exists>x \<in> set ivs. fst iv = fst x) \<and> (\<exists>x \<in> set ivs. snd iv = snd x)"
proof -
  have "(fst iv, START) \<in> set (merge_events ivs) \<and> (snd iv, STOP) \<in> set (merge_events ivs)"
    using merge_sweep_origin[of iv 0 0 "merge_events ivs"] assms by (simp add: merge_intervals_def)
  then show ?thesis by (auto simp: merge_events_def)
qed

lemma merge_intervals_iterable_Sequence:
  "merge_intervals_iterable (Sequence ivs) = merge_intervals ivs"
  by (simp add: merge_intervals_iterable_def merge_events_iterable_def merge_intervals_def
      merge_events_def)

lemma merge_sweep_only_starts:
  "\<forall>e \<in> set es. snd e = START \<Longrightarrow> 0 \<le> a \<Longrightarrow> merge_sweep a s es = []"
proof (induction a s es rule: merge_sweep.induct)
  case (1 active start)
  then show ?case by simp
next
  case (2 active start pos es)
  then show ?case by simp
next
  case (3 active start pos es)
  then show ?case by simp
qed

lemma merge_intervals_iterable_Iterator: "merge_intervals_iterable (Iterator ivs) = []"
proof -
  have "\<forall>e \<in> set (merge_events_iterable (Iterator ivs)). snd e = START"
    by (auto simp: merge_events_iterable_def)
  then show ?thesis
    by (simp add: merge_intervals_iterable_def merge_sweep_only_starts)
qed

lemma gapped_merge_intervals_iterable: "gapped (merge_intervals_iterable X)"
  by (cases X) (simp_all add: merge_intervals_iterable_Sequence merge_intervals_iterable_Iterator
      gapped_merge_intervals)

text \<open>
  C2, as amended. \<open>merge_intervals\<close> is idempotent when its output is collected into a
  list before it is merged again: for every argument \<open>X\<close>,
  \<open>merge_intervals(list(merge_intervals(X)))\<close> yields the same list of intervals as
  \<open>merge_intervals(X)\<close>. It is the identity on every list that is ordered with a gap
  between neighbours (each start at most its end, each end strictly below every later
  start). On lists that are only sorted and non-overlapping it is not: two touching
  intervals are merged into one, as the comment in the source says.
\<close>

theorem merge_intervals_idempotent:
  "merge_intervals_iterable (Sequence (merge_intervals_iterable X)) = merge_intervals_iterable X
     \<and> (gapped Y \<longrightarrow> merge_intervals_iterable (Sequence Y) = Y)"
  by (simp add: merge_intervals_iterable_Sequence merge_intervals_gapped
      gapped_merge_intervals_iterable)

theorem merge_intervals_idempotent_witness:
  "merge_intervals_iterable
       (Sequence (merge_intervals_iterable (Sequence [(7, 9), (0, 5), (8, 12), (5, 6)])))
       = merge_intervals_iterable (Sequence [(7, 9), (0, 5), (8, 12), (5, 6)])
     \<and> merge_intervals_iterable (Sequence [(7, 9), (0, 5), (8, 12), (5, 6)]) = [(0, 6), (7, 12)]
     \<and> merge_intervals_iterable (Sequence [(0, 5), (7, 12)]) = [(0, 5), (7, 12)]"
proof -
  have g: "gapped [(0, 5), (7, 12)]" by simp
  have "merge_intervals_iterable (Sequence [(0, 5), (7, 12)]) = [(0, 5), (7, 12)]"
    using merge_intervals_idempotent[of "Sequence []" "[(0, 5), (7, 12)]"] g by blast
  moreover have "merge_intervals_iterable
       (Sequence (merge_intervals_iterable (Sequence [(7, 9), (0, 5), (8, 12), (5, 6)])))
       = merge_intervals_iterable (Sequence [(7, 9), (0, 5), (8, 12), (5, 6)])"
    using merge_intervals_idempotent[of "Sequence [(7, 9), (0, 5), (8, 12), (5, 6)]" "[]"]
    by blast
  moreover have "merge_intervals_iterable (Sequence [(7, 9), (0, 5), (8, 12), (5, 6)])
       = [(0, 6), (7, 12)]"
    by (simp add: merge_intervals_iterable_def merge_events_iterable_def less_eq_what_def
        less_what_def)
  ultimately show ?thesis by blast
qed

text \<open>
  The claim C2 as stated fails in two places. At the sorted, non-overlapping list
  \<open>[(0, 5), (5, 10)]\<close> the two intervals touch and are merged into \<open>(0, 10)\<close>, so the
  function is not the identity there. And \<open>merge_intervals(merge_intervals(X))\<close>, written
  as in the claim, hands the inner generator itself to the outer call: at
  \<open>X = [(0, 5), (7, 9)]\<close> the first pass of the outer call takes both intervals, the
  second pass finds the generator exhausted, no \<open>STOP\<close> event is made, and nothing is
  yielded, while \<open>merge_intervals(X)\<close> yields both intervals.
\<close>

theorem merge_touching_counterexample:
  "sorted ([(0, 5), (5, 10)] :: interval list) \<and> non_overlapping [(0, 5), (5, 10)]
     \<and> merge_intervals [(0, 5), (5, 10)] = [(0, 10)]
     \<and> merge_intervals [(0, 5), (5, 10)] \<noteq> [(0, 5), (5, 10)]
     \<and> merge_intervals_iterable (Sequence [(0, 5), (5, 10)]) = [(0, 10)]
     \<and> merge_intervals_iterable (Sequence [(0, 5), (7, 9)]) = [(0, 5), (7, 9)]
     \<and> merge_intervals_iterable
           (Iterator (merge_intervals_iterable (Sequence [(0, 5), (7, 9)]))) = []
     \<and> merge_intervals_iterable (Iterator (merge_intervals_iterable (Sequence [(0, 5), (7, 9)])))
           \<noteq> merge_intervals_iterable (Sequence [(0, 5), (7, 9)])"
  by (simp add: merge_intervals_def merge_events_def merge_intervals_iterable_def
      merge_events_iterable_def less_eq_what_def less_what_def)

text \<open>
  C5. For intervals \<open>X\<close> that all lie inside \<open>[0, L)\<close>, the complement of the merged
  intervals together with \<open>X\<close> covers exactly \<open>[0, L)\<close>; no complement interval overlaps
  an interval of \<open>X\<close>, and no two complement intervals overlap each other.
\<close>

theorem complement_merge_partition:
  assumes "\<forall>iv \<in> set X. 0 \<le> fst iv \<and> fst iv \<le> snd iv \<and> snd iv \<le> L"
  shows "covered (complement_intervals (merge_intervals X) L) \<union> covered X = {0 ..< L}
     \<and> (\<forall>c \<in> set (complement_intervals (merge_intervals X) L). \<forall>x \<in> set X.
           {fst c ..< snd c} \<inter> {fst x ..< snd x} = {})
     \<and> non_overlapping (complement_intervals (merge_intervals X) L)"
proof -
  let ?M = "merge_intervals X"
  let ?C = "complement_intervals ?M L"
  have wf: "\<forall>iv \<in> set X. fst iv \<le> snd iv" using assms by simp
  have g: "gapped ?M" by (rule gapped_merge_intervals)
  have b: "\<forall>iv \<in> set ?M. 0 \<le> fst iv \<and> snd iv \<le> L"
  proof
    fix iv assume "iv \<in> set ?M"
    then show "0 \<le> fst iv \<and> snd iv \<le> L"
      using merge_intervals_bounds[of iv X] assms by auto
  qed
  have cov: "covered ?C = {0 ..< L} - covered X"
    using complement_loop_covered[OF g b] covered_merge_intervals[OF wf]
    by (simp add: complement_intervals_def)
  have sub: "covered X \<subseteq> {0 ..< L}" using assms by (auto simp: covered_def)
  have one: "covered ?C \<union> covered X = {0 ..< L}" using cov sub by auto
  have two: "\<forall>c \<in> set ?C. \<forall>x \<in> set X. {fst c ..< snd c} \<inter> {fst x ..< snd x} = {}"
  proof (intro ballI)
    fix c x assume c: "c \<in> set ?C" and x: "x \<in> set X"
    have "{fst c ..< snd c} \<subseteq> covered ?C" using c by (auto simp: covered_def)
    moreover have "{fst x ..< snd x} \<subseteq> covered X" using x by (auto simp: covered_def)
    ultimately have "{fst c ..< snd c} \<inter> {fst x ..< snd x}
        \<subseteq> ({0 ..< L} - covered X) \<inter> covered X"
      unfolding cov by blast
    then show "{fst c ..< snd c} \<inter> {fst x ..< snd x} = {}" by blast
  qed
  have three: "non_overlapping ?C"
  proof (cases "0 \<le> L")
    case True
    then show ?thesis
      using complement_loop_non_overlapping[OF g b] by (simp add: complement_intervals_def)
  next
    case False
    then have "X = []" using assms by (cases X) auto
    then show ?thesis
      by (simp add: complement_intervals_def merge_intervals_def merge_events_def)
  qed
  show ?thesis using one two three by blast
qed

theorem complement_merge_partition_witness:
  "covered (complement_intervals (merge_intervals [(3, 4), (0, 1), (18, 20)]) 20)
       \<union> covered [(3, 4), (0, 1), (18, 20)] = {0 ..< 20}
     \<and> non_overlapping (complement_intervals (merge_intervals [(3, 4), (0, 1), (18, 20)]) 20)"
proof -
  have h: "\<forall>iv \<in> set ([(3, 4), (0, 1), (18, 20)] :: interval list). 0 \<le> fst iv \<and> fst iv \<le> snd iv \<and> snd iv \<le> 20"
    by simp
  show ?thesis using complement_merge_partition[OF h] by blast
qed

section \<open>Properties of \<open>subtract_intervals\<close>\<close>

lemma key_le_pos: "event_key e \<le> event_key e' \<Longrightarrow> fst e \<le> fst e'"
  by (auto simp: event_key_def)

lemma flag_at_no_interval:
  "\<forall>e \<in> set es. fst e \<le> p \<longrightarrow> fst (snd e) = T_rec \<Longrightarrow> flag_at b es p = b"
  by (induction b es p rule: flag_at.induct) auto

lemma subtract_sweep_mem:
  "sorted (map event_key es) \<Longrightarrow> rec_events_ok es
     \<Longrightarrow> Some r \<in> set (subtract_sweep b es)
         \<longleftrightarrow> (cr_start r, T_rec, Some r) \<in> set es \<and> \<not> flag_at b es (cr_start r)"
proof (induction es arbitrary: b)
  case Nil
  then show ?case by simp
next
  case (Cons e es)
  obtain pos ty x where e: "e = (pos, ty, x)" by (cases e)
  have srt: "sorted (map event_key es)" and ok: "rec_events_ok es"
    using Cons.prems by (auto simp: rec_events_ok_def)
  have later: "\<forall>e' \<in> set es. (pos, ty) \<le> event_key e'"
    using Cons.prems(1) e by (auto simp: event_key_def)
  note IH = Cons.IH[OF srt ok]
  let ?p = "cr_start r"
  show ?case
  proof (cases ty)
    case T_iend
    show ?thesis
    proof (cases "pos \<le> ?p")
      case True
      then show ?thesis using IH[of False] e T_iend by auto
    next
      case False
      then have "(?p, T_rec, Some r) \<notin> set es"
        using later by (fastforce simp: event_key_def)
      then show ?thesis using IH[of False] e T_iend False by auto
    qed
  next
    case T_istart
    show ?thesis
    proof (cases "pos \<le> ?p")
      case True
      then show ?thesis using IH[of True] e T_istart by auto
    next
      case False
      then have "(?p, T_rec, Some r) \<notin> set es"
        using later by (fastforce simp: event_key_def)
      then show ?thesis using IH[of True] e T_istart False by auto
    qed
  next
    case T_rec
    then obtain r' where r': "e = (cr_start r', T_rec, Some r')"
      using Cons.prems(2) e by (auto simp: rec_events_ok_def)
    show ?thesis
    proof (cases "r' = r")
      case True
      have "\<forall>e' \<in> set es. fst e' \<le> ?p \<longrightarrow> fst (snd e') = T_rec"
      proof (intro ballI impI)
        fix e' assume "e' \<in> set es" "fst e' \<le> ?p"
        then have "(pos, ty) \<le> event_key e'" using later by simp
        then show "fst (snd e') = T_rec"
          using \<open>fst e' \<le> ?p\<close> e r' True T_rec
          by (cases "fst (snd e')") (auto simp: event_key_def less_eq_tag_def less_tag_def)
      qed
      then have "flag_at b es ?p = b" by (rule flag_at_no_interval)
      then show ?thesis using IH[of b] e r' True by auto
    next
      case False
      then show ?thesis using IH[of b] e r' by auto
    qed
  qed
qed


lemma no_iend_Cons:
  "no_iend (e # es) p \<longleftrightarrow> \<not> (fst e \<le> p \<and> fst (snd e) = T_iend) \<and> no_iend es p"
  by (simp add: no_iend_def)

lemma flag_at_has_open: "flag_at b es p \<longleftrightarrow> (b \<and> no_iend es p) \<or> has_open es p"
proof (induction b es p rule: flag_at.induct)
  case (1 b p)
  then show ?case by (simp add: no_iend_def)
next
  case (2 b pos ty x es p)
  then show ?case by (cases ty) (auto simp: no_iend_Cons)
qed

lemma has_open_sorted:
  "sorted (map event_key es)
     \<Longrightarrow> has_open es p
         \<longleftrightarrow> (\<exists>e \<in> set es. fst e \<le> p \<and> fst (snd e) = T_istart
               \<and> (\<forall>e' \<in> set es. fst e' \<le> p \<and> fst (snd e') = T_iend \<longrightarrow> fst e' \<le> fst e))"
proof (induction es)
  case Nil
  then show ?case by simp
next
  case (Cons e es)
  have srt: "sorted (map event_key es)" using Cons.prems by simp
  have later: "\<forall>e' \<in> set es. event_key e \<le> event_key e'" using Cons.prems by simp
  note IH = Cons.IH[OF srt]
  show ?case
  proof
    assume "has_open (e # es) p"
    then consider (head) "fst e \<le> p" "fst (snd e) = T_istart" "no_iend es p"
      | (tail) "has_open es p" by auto
    then show "\<exists>e0 \<in> set (e # es). fst e0 \<le> p \<and> fst (snd e0) = T_istart
        \<and> (\<forall>e' \<in> set (e # es). fst e' \<le> p \<and> fst (snd e') = T_iend \<longrightarrow> fst e' \<le> fst e0)"
    proof cases
      case head
      then show ?thesis by (auto simp: no_iend_def)
    next
      case tail
      then obtain e0 where e0: "e0 \<in> set es" "fst e0 \<le> p" "fst (snd e0) = T_istart"
        "\<forall>e' \<in> set es. fst e' \<le> p \<and> fst (snd e') = T_iend \<longrightarrow> fst e' \<le> fst e0"
        using IH by blast
      have "fst e \<le> fst e0" using later e0(1) key_le_pos by blast
      then show ?thesis using e0 by auto
    qed
  next
    assume "\<exists>e0 \<in> set (e # es). fst e0 \<le> p \<and> fst (snd e0) = T_istart
        \<and> (\<forall>e' \<in> set (e # es). fst e' \<le> p \<and> fst (snd e') = T_iend \<longrightarrow> fst e' \<le> fst e0)"
    then obtain e0 where e0: "e0 \<in> set (e # es)" "fst e0 \<le> p" "fst (snd e0) = T_istart"
      "\<forall>e' \<in> set (e # es). fst e' \<le> p \<and> fst (snd e') = T_iend \<longrightarrow> fst e' \<le> fst e0"
      by blast
    show "has_open (e # es) p"
    proof (cases "e0 = e")
      case True
      have "no_iend es p"
        unfolding no_iend_def
      proof (intro ballI notI)
        fix e' assume e': "e' \<in> set es" "fst e' \<le> p \<and> fst (snd e') = T_iend"
        then have "fst e' \<le> fst e" using e0(4) True by simp
        moreover have "event_key e \<le> event_key e'" using later e'(1) by simp
        ultimately show False
          using e'(2) e0(3) True by (auto simp: event_key_def less_eq_tag_def less_tag_def)
      qed
      then show ?thesis using e0 True by simp
    next
      case False
      then have "e0 \<in> set es" using e0(1) by simp
      then have "has_open es p" using IH e0 by auto
      then show ?thesis by simp
    qed
  qed
qed

lemma subtract_events_props:
  "rec_events_ok (subtract_events records intervals)"
  "e \<in> set (subtract_events records intervals) \<and> fst (snd e) = T_istart
     \<longleftrightarrow> (\<exists>iv \<in> set intervals. e = (fst iv, T_istart, None))"
  "e \<in> set (subtract_events records intervals) \<and> fst (snd e) = T_iend
     \<longleftrightarrow> (\<exists>iv \<in> set intervals. e = (snd iv, T_iend, None))"
  "(cr_start r, T_rec, Some r) \<in> set (subtract_events records intervals) \<longleftrightarrow> r \<in> set records"
  by (auto simp: subtract_events_def rec_events_ok_def)

lemma subtract_sweep_sorted_mem:
  "Some r \<in> set (subtract_sweep False (sort_key event_key (subtract_events records intervals)))
     \<longleftrightarrow> r \<in> set records \<and> \<not> dropped_at intervals (cr_start r)"
proof -
  let ?es = "sort_key event_key (subtract_events records intervals)"
  let ?p = "cr_start r"
  have srt: "sorted (map event_key ?es)" by simp
  have set_es: "set ?es = set (subtract_events records intervals)" by simp
  have ok: "rec_events_ok ?es"
    using subtract_events_props(1)[of records intervals] by (simp add: rec_events_ok_def)
  have "has_open ?es ?p \<longleftrightarrow> dropped_at intervals ?p"
  proof -
    have "has_open ?es ?p \<longleftrightarrow> (\<exists>e \<in> set ?es. fst e \<le> ?p \<and> fst (snd e) = T_istart
               \<and> (\<forall>e' \<in> set ?es. fst e' \<le> ?p \<and> fst (snd e') = T_iend \<longrightarrow> fst e' \<le> fst e))"
      using has_open_sorted[OF srt] .
    also have "\<dots> \<longleftrightarrow> dropped_at intervals ?p"
    proof
      assume "\<exists>e \<in> set ?es. fst e \<le> ?p \<and> fst (snd e) = T_istart
               \<and> (\<forall>e' \<in> set ?es. fst e' \<le> ?p \<and> fst (snd e') = T_iend \<longrightarrow> fst e' \<le> fst e)"
      then obtain e where e: "e \<in> set ?es" "fst e \<le> ?p" "fst (snd e) = T_istart"
        "\<forall>e' \<in> set ?es. fst e' \<le> ?p \<and> fst (snd e') = T_iend \<longrightarrow> fst e' \<le> fst e"
        by blast
      obtain iv where iv: "iv \<in> set intervals" "e = (fst iv, T_istart, None)"
        using subtract_events_props(2)[of e records intervals] e(1,3) set_es by auto
      have "snd jv \<le> fst iv" if jv: "jv \<in> set intervals" "snd jv \<le> ?p" for jv
      proof -
        have "(snd jv, T_iend, None) \<in> set ?es"
          using subtract_events_props(3)[of "(snd jv, T_iend, None)" records intervals] jv(1) set_es
          by auto
        then show ?thesis using e(4) jv(2) iv(2) by fastforce
      qed
      then show "dropped_at intervals ?p"
        unfolding dropped_at_def using iv e(2) by auto
    next
      assume "dropped_at intervals ?p"
      then obtain iv where iv: "iv \<in> set intervals" "fst iv \<le> ?p"
        "\<forall>jv \<in> set intervals. snd jv \<le> ?p \<longrightarrow> snd jv \<le> fst iv"
        unfolding dropped_at_def by blast
      have mem: "(fst iv, T_istart, None) \<in> set ?es"
        using subtract_events_props(2)[of "(fst iv, T_istart, None)" records intervals] iv(1) set_es
        by auto
      have "fst e' \<le> fst iv" if e': "e' \<in> set ?es" "fst e' \<le> ?p \<and> fst (snd e') = T_iend" for e'
      proof -
        obtain jv where "jv \<in> set intervals" "e' = (snd jv, T_iend, None)"
          using subtract_events_props(3)[of e' records intervals] e' set_es by auto
        then show ?thesis using iv(3) e'(2) by auto
      qed
      then show "\<exists>e \<in> set ?es. fst e \<le> ?p \<and> fst (snd e) = T_istart
               \<and> (\<forall>e' \<in> set ?es. fst e' \<le> ?p \<and> fst (snd e') = T_iend \<longrightarrow> fst e' \<le> fst e)"
        using mem iv(2) by (intro bexI[of _ "(fst iv, T_istart, None)"]) auto
    qed
    finally show ?thesis .
  qed
  then have "flag_at False ?es ?p \<longleftrightarrow> dropped_at intervals ?p"
    by (simp add: flag_at_has_open)
  then show ?thesis
    using subtract_sweep_mem[OF srt ok, of r False] subtract_events_props(4)[of r records intervals]
    by (simp add: set_es)
qed


lemma non_overlapping_pair:
  "non_overlapping ivs \<Longrightarrow> iv \<in> set ivs \<Longrightarrow> jv \<in> set ivs \<Longrightarrow> iv \<noteq> jv
     \<Longrightarrow> {fst iv ..< snd iv} \<inter> {fst jv ..< snd jv} = {}"
proof (induction ivs)
  case Nil
  then show ?case by simp
next
  case (Cons kv ivs)
  show ?case
  proof (cases "iv = kv")
    case True
    then have "jv \<in> set ivs" using Cons.prems by auto
    then show ?thesis using Cons.prems(1) True by simp
  next
    case False
    then have iv: "iv \<in> set ivs" using Cons.prems by auto
    show ?thesis
    proof (cases "jv = kv")
      case True
      then have "{fst jv ..< snd jv} \<inter> {fst iv ..< snd iv} = {}"
        using Cons.prems(1) iv by simp
      then show ?thesis by (simp add: Int_commute)
    next
      case False
      then have "jv \<in> set ivs" using Cons.prems by auto
      then show ?thesis using Cons.IH Cons.prems iv by simp
    qed
  qed
qed

lemma dropped_at_half_open:
  assumes "non_overlapping intervals" and "\<forall>iv \<in> set intervals. fst iv < snd iv"
  shows "dropped_at intervals p \<longleftrightarrow> (\<exists>iv \<in> set intervals. fst iv \<le> p \<and> p < snd iv)"
proof
  assume "dropped_at intervals p"
  then obtain iv where iv: "iv \<in> set intervals" "fst iv \<le> p"
    "\<forall>jv \<in> set intervals. snd jv \<le> p \<longrightarrow> snd jv \<le> fst iv"
    unfolding dropped_at_def by blast
  have "fst iv < snd iv" using assms(2) iv(1) by simp
  then have "p < snd iv" using iv(1,3) by fastforce
  then show "\<exists>iv \<in> set intervals. fst iv \<le> p \<and> p < snd iv" using iv by blast
next
  assume "\<exists>iv \<in> set intervals. fst iv \<le> p \<and> p < snd iv"
  then obtain iv where iv: "iv \<in> set intervals" "fst iv \<le> p" "p < snd iv" by blast
  have "snd jv \<le> fst iv" if jv: "jv \<in> set intervals" "snd jv \<le> p" for jv
  proof (rule ccontr)
    assume "\<not> snd jv \<le> fst iv"
    then have lt: "fst iv < snd jv" by simp
    have ne: "iv \<noteq> jv" using jv(2) iv(3) by auto
    have "fst jv < snd jv" using assms(2) jv(1) by simp
    then have "snd jv - 1 \<in> {fst iv ..< snd iv} \<inter> {fst jv ..< snd jv}"
      using lt jv(2) iv(3) by simp
    then show False using non_overlapping_pair[OF assms(1) iv(1) jv(1) ne] by blast
  qed
  then show "dropped_at intervals p" unfolding dropped_at_def using iv by blast
qed

text \<open>
  C10, as amended. \<open>subtract_intervals\<close> resolves ties of position by the order of the
  tags, \<open>'iend' < 'istart' < 'rec'\<close>. For records with distinct starts (so that the sort
  never has to compare two records): a record whose start is the start of an exclusion
  interval is dropped; a record whose start is the end of an exclusion interval is yielded
  unless an exclusion interval also starts at that position (that \<open>istart\<close> is processed
  after the \<open>iend\<close> and before the record, by the same order). So, for exclusion intervals
  that are non-empty and pairwise disjoint, a record is yielded exactly when its start lies
  in none of the half-open intervals \<open>[istart, iend)\<close>.
\<close>

theorem subtract_intervals_ties:
  assumes "distinct (map cr_start records)" and "r \<in> set records"
  shows "T_iend < T_istart \<and> T_istart < T_rec
     \<and> (\<exists>out. subtract_intervals records intervals = Inr out
         \<and> ((\<exists>iv \<in> set intervals. fst iv = cr_start r) \<longrightarrow> Some r \<notin> set out)
         \<and> ((\<exists>iv \<in> set intervals. snd iv = cr_start r)
              \<and> (\<forall>iv \<in> set intervals. fst iv \<noteq> cr_start r) \<longrightarrow> Some r \<in> set out)
         \<and> (non_overlapping intervals \<and> (\<forall>iv \<in> set intervals. fst iv < snd iv)
              \<longrightarrow> (Some r \<in> set out
                    \<longleftrightarrow> (\<forall>iv \<in> set intervals. \<not> (fst iv \<le> cr_start r \<and> cr_start r < snd iv)))))"
proof -
  let ?out = "subtract_sweep False (sort_key event_key (subtract_events records intervals))"
  let ?p = "cr_start r"
  have out: "subtract_intervals records intervals = Inr ?out"
    using assms(1) by (simp add: subtract_intervals_def)
  have mem: "Some r \<in> set ?out \<longleftrightarrow> \<not> dropped_at intervals ?p"
    using subtract_sweep_sorted_mem[of r records intervals] assms(2) by simp
  have one: "(\<exists>iv \<in> set intervals. fst iv = ?p) \<longrightarrow> Some r \<notin> set ?out"
  proof
    assume "\<exists>iv \<in> set intervals. fst iv = ?p"
    then obtain iv where "iv \<in> set intervals" "fst iv = ?p" by blast
    then have "dropped_at intervals ?p" unfolding dropped_at_def by (intro bexI[of _ iv]) auto
    then show "Some r \<notin> set ?out" using mem by simp
  qed
  have two: "(\<exists>iv \<in> set intervals. snd iv = ?p) \<and> (\<forall>iv \<in> set intervals. fst iv \<noteq> ?p)
      \<longrightarrow> Some r \<in> set ?out"
  proof
    assume a: "(\<exists>iv \<in> set intervals. snd iv = ?p) \<and> (\<forall>iv \<in> set intervals. fst iv \<noteq> ?p)"
    then obtain kv where kv: "kv \<in> set intervals" "snd kv = ?p" by blast
    have "\<not> dropped_at intervals ?p"
    proof
      assume "dropped_at intervals ?p"
      then obtain iv where iv: "iv \<in> set intervals" "fst iv \<le> ?p"
        "\<forall>jv \<in> set intervals. snd jv \<le> ?p \<longrightarrow> snd jv \<le> fst iv"
        unfolding dropped_at_def by blast
      then have "?p \<le> fst iv" using kv by fastforce
      then have "fst iv = ?p" using iv(2) by simp
      then show False using a iv(1) by blast
    qed
    then show "Some r \<in> set ?out" using mem by simp
  qed
  have three: "non_overlapping intervals \<and> (\<forall>iv \<in> set intervals. fst iv < snd iv)
      \<longrightarrow> (Some r \<in> set ?out
            \<longleftrightarrow> (\<forall>iv \<in> set intervals. \<not> (fst iv \<le> ?p \<and> ?p < snd iv)))"
    using mem dropped_at_half_open[of intervals ?p] by blast
  have "T_iend < T_istart \<and> T_istart < T_rec" by (simp add: less_tag_def)
  then show ?thesis using out one two three by blast
qed

theorem subtract_intervals_ties_witness:
  "\<exists>out. subtract_intervals [record_at 10, record_at 20, record_at 25] [(10, 20)] = Inr out \<and> Some (record_at 20) \<in> set out
     \<and> Some (record_at 10) \<notin> set out"
proof -
  have d: "distinct (map cr_start [record_at 10, record_at 20, record_at 25])" by (simp add: record_at_def)
  have m20: "record_at 20 \<in> set [record_at 10, record_at 20, record_at 25]" and m10: "record_at 10 \<in> set [record_at 10, record_at 20, record_at 25]"
    by simp_all
  have e20: "(\<exists>iv \<in> set [(10 :: int, 20 :: int)]. snd iv = cr_start (record_at 20))
      \<and> (\<forall>iv \<in> set [(10 :: int, 20 :: int)]. fst iv \<noteq> cr_start (record_at 20))"
    by (simp add: record_at_def)
  have e10: "\<exists>iv \<in> set [(10 :: int, 20 :: int)]. fst iv = cr_start (record_at 10)"
    by (simp add: record_at_def)
  show ?thesis
    using subtract_intervals_ties[OF d m20, of "[(10, 20)]"]
      subtract_intervals_ties[OF d m10, of "[(10, 20)]"] e20 e10
    by (metis Inl_Inr_False sum.inject(2))
qed

text \<open>
  The claim C10 as stated fails for two touching exclusion intervals: the record starting at
  \<open>10\<close>, the end of \<open>(0, 10)\<close>, is not yielded, because \<open>(10, 20)\<close> starts there.
\<close>

theorem subtract_intervals_touching_counterexample:
  "cr_start (record_at 10) = snd (0 :: int, 10 :: int)
     \<and> subtract_intervals [record_at 10] [(0, 10), (10, 20)] = Inr []"
  by (simp add: subtract_intervals_def subtract_events_def event_key_def record_at_def
      less_eq_tag_def less_tag_def)

section \<open>Properties of \<open>variant_filter\<close>\<close>

lemma py_split_not_Nil: "py_split c s \<noteq> []"
  by (induction s) simp_all

lemma py_split_none: "c \<notin> set a \<Longrightarrow> py_split c a = [a]"
  by (induction a) auto

lemma py_split_first: "c \<notin> set a \<Longrightarrow> py_split c (a @ c # b) = a # py_split c b"
  by (induction a) auto

lemma drop_2_append: "2 \<le> length u \<Longrightarrow> drop 2 (u @ w) = drop 2 u @ w"
  by simp

lemma plainD:
  "plain s \<Longrightarrow> CHR '':'' \<notin> set s" "plain s \<Longrightarrow> CHR ''['' \<notin> set s" "plain s \<Longrightarrow> CHR '']'' \<notin> set s"
  by (simp_all add: plain_def)

lemma bnd_partner_bracket:
  assumes pl: "plain before" "plain chrom" "plain pos" "plain after"
    and ne: "chrom \<noteq> []"
    and br: "bracket = CHR ''['' \<or> bracket = CHR '']''"
    and n: "py_int pos = Some n"
  shows "bnd_partner (bracket_alt before bracket chrom pos after) = Inr (chrom, n)"
proof -
  let ?x0 = "before @ [bracket] @ chrom"
  let ?x1 = "pos @ [bracket] @ after"
  let ?alt = "bracket_alt before bracket chrom pos after"
  have alt: "?alt = ?x0 @ CHR '':'' # ?x1" by (simp add: bracket_alt_def)
  have c0: "CHR '':'' \<notin> set ?x0" using pl br by (auto simp: plain_def)
  have c1: "CHR '':'' \<notin> set ?x1" using pl br by (auto simp: plain_def)
  have split_alt: "py_split CHR '':'' ?alt = [?x0, ?x1]"
    unfolding alt using py_split_first[OF c0] py_split_none[OF c1] by simp
  have len: "2 \<le> length ?x0" using ne by (cases chrom) simp_all
  have bl: "butlast ?alt = ?x0 @ CHR '':'' # butlast ?x1"
    unfolding alt by (simp add: butlast_append)
  have sl: "slice_2_m1 ?alt = drop 2 ?x0 @ CHR '':'' # butlast ?x1"
    by (simp only: slice_2_m1_def bl drop_2_append[OF len])
  have d0: "CHR '':'' \<notin> set (drop 2 ?x0)" using c0 by (meson in_set_dropD)
  have d1: "CHR '':'' \<notin> set (butlast ?x1)" using c1 by (meson in_set_butlastD)
  have split_sl: "py_split CHR '':'' (slice_2_m1 ?alt) = [drop 2 ?x0, butlast ?x1]"
    unfolding sl using py_split_first[OF d0] py_split_none[OF d1] by simp
  have pos: "hd (py_split CHR ''['' (hd (py_split CHR '']'' ?x1))) = pos"
  proof (cases "bracket = CHR '']''")
    case True
    have "py_split CHR '']'' ?x1 = pos # py_split CHR '']'' after"
      using py_split_first[OF plainD(3)[OF pl(3)], of after] True by simp
    then show ?thesis using py_split_none[OF plainD(2)[OF pl(3)]] by simp
  next
    case False
    then have b: "bracket = CHR ''[''" using br by simp
    have "CHR '']'' \<notin> set ?x1" using pl b by (auto simp: plain_def)
    then have "py_split CHR '']'' ?x1 = [?x1]" by (rule py_split_none)
    moreover have "py_split CHR ''['' ?x1 = pos # py_split CHR ''['' after"
      using py_split_first[OF plainD(2)[OF pl(3)], of after] b by simp
    ultimately show ?thesis by simp
  qed
  have chrom: "last (py_split CHR ''['' (last (py_split CHR '']'' ?x0))) = chrom"
  proof (cases "bracket = CHR '']''")
    case True
    have "py_split CHR '']'' ?x0 = [before, chrom]"
      using py_split_first[OF plainD(3)[OF pl(1)], of chrom] py_split_none[OF plainD(3)[OF pl(2)]]
        True by simp
    then show ?thesis using py_split_none[OF plainD(2)[OF pl(2)]] by simp
  next
    case False
    then have b: "bracket = CHR ''[''" using br by simp
    have "CHR '']'' \<notin> set ?x0" using pl b by (auto simp: plain_def)
    then have "py_split CHR '']'' ?x0 = [?x0]" by (rule py_split_none)
    moreover have "py_split CHR ''['' ?x0 = [before, chrom]"
      using py_split_first[OF plainD(2)[OF pl(1)], of chrom] py_split_none[OF plainD(2)[OF pl(2)]]
        b by simp
    ultimately show ?thesis by simp
  qed
  show ?thesis
    unfolding bnd_partner_def split_sl split_alt using pos chrom n by simp
qed

text \<open>
  C7, as amended. For every record whose \<open>END\<close> is present and not zero (the source tests
  \<open>if end\<close>, and \<open>0\<close> is false in Python) and whose \<open>SVTYPE\<close> is not \<open>TRA\<close>: when
  \<open>|END - start| \<le> min_size\<close> the record is rejected, whatever the frequency settings, the
  boundary \<open>|END - start| = min_size\<close> included; when \<open>|END - start| > min_size\<close> the size rule
  does not reject it, and it is admitted exactly when the frequency check lets it pass.
\<close>

theorem variant_filter_size_rule:
  assumes "END (v_INFO v) = Some e" and "e \<noteq> 0" and "SVTYPE (v_INFO v) \<noteq> Some ''TRA''"
  shows "(\<bar>e - v_start v\<bar> \<le> min_size
            \<longrightarrow> variant_admit min_size max_frequency frequency_tag v = Inr False)
     \<and> (min_size < \<bar>e - v_start v\<bar>
            \<longrightarrow> variant_admit min_size max_frequency frequency_tag v
                = Inr (\<not> too_frequent max_frequency frequency_tag v))"
  using assms by (simp add: variant_admit_def)

theorem variant_filter_size_rule_witness:
  "variant_admit 5000 (1 / 100) ''FRQ'' (sv_record ''1'' 100 ''<DEL>'' (Some 5200) ''DEL'' None)
       = Inr True
     \<and> variant_admit 5000 (1 / 100) ''FRQ'' (sv_record ''1'' 100 ''<DEL>'' (Some 2000) ''DEL'' None)
       = Inr False
     \<and> variant_admit 5000 (1 / 100) ''FRQ'' (sv_record ''1'' 100 ''<DEL>'' (Some 5100) ''DEL'' (Some 0))
       = Inr False"
proof -
  let ?a = "sv_record ''1'' 100 ''<DEL>'' (Some 5200) ''DEL'' None"
  let ?b = "sv_record ''1'' 100 ''<DEL>'' (Some 2000) ''DEL'' None"
  let ?c = "sv_record ''1'' 100 ''<DEL>'' (Some 5100) ''DEL'' (Some 0)"
  have a: "END (v_INFO ?a) = Some 5200" "(5200 :: int) \<noteq> 0" "SVTYPE (v_INFO ?a) \<noteq> Some ''TRA''"
    and a': "(5000 :: int) < \<bar>5200 - v_start ?a\<bar>" "\<not> too_frequent (1 / 100) ''FRQ'' ?a"
    by (simp_all add: sv_record_def too_frequent_def)
  have b: "END (v_INFO ?b) = Some 2000" "(2000 :: int) \<noteq> 0" "SVTYPE (v_INFO ?b) \<noteq> Some ''TRA''"
    and b': "\<bar>2000 - v_start ?b\<bar> \<le> (5000 :: int)"
    by (simp_all add: sv_record_def)
  have c: "END (v_INFO ?c) = Some 5100" "(5100 :: int) \<noteq> 0" "SVTYPE (v_INFO ?c) \<noteq> Some ''TRA''"
    and c': "\<bar>5100 - v_start ?c\<bar> \<le> (5000 :: int)"
    by (simp_all add: sv_record_def)
  show ?thesis
    using variant_filter_size_rule[OF a, of 5000 "1 / 100" "''FRQ''"] a'
      variant_filter_size_rule[OF b, of 5000 "1 / 100" "''FRQ''"] b'
      variant_filter_size_rule[OF c, of 5000 "1 / 100" "''FRQ''"] c'
    by simp
qed

text \<open>
  The claim C7 as stated fails for a record whose \<open>END\<close> field is \<open>0\<close>: the test \<open>if end\<close>
  is false, the size rule is skipped, and the record is admitted although
  \<open>|END - start| = 10 \<le> 5000\<close>.
\<close>

theorem variant_filter_end_zero_counterexample:
  "END (v_INFO (sv_record ''1'' 10 ''<DEL>'' (Some 0) ''DEL'' None)) = Some 0
     \<and> \<bar>0 - v_start (sv_record ''1'' 10 ''<DEL>'' (Some 0) ''DEL'' None)\<bar> \<le> 5000
     \<and> variant_admit 5000 (1 / 100) ''FRQ'' (sv_record ''1'' 10 ''<DEL>'' (Some 0) ''DEL'' None)
         = Inr True"
  by (simp add: variant_admit_def sv_record_def too_frequent_def)

text \<open>
  C8, as amended. For every \<open>BND\<close> record whose \<open>END\<close> is absent or zero (so that the first
  branch of the chain is not taken) and whose first \<open>ALT\<close> allele is in bracket notation
  around the partner \<open>chrom:pos\<close>: the filter reads \<open>chrom\<close> and \<open>pos\<close> out of the allele
  and rejects the record when the partner is on the record's contig and
  \<open>|pos - start| < min_size\<close>; otherwise the record is admitted exactly when the frequency
  check lets it pass.
\<close>

theorem variant_filter_local_breakend:
  assumes "SVTYPE (v_INFO v) = Some ''BND''" and "\<not> truthy_int (END (v_INFO v))"
    and "v_ALT v = bracket_alt before bracket chrom pos after # alts"
    and "plain before" and "plain chrom" and "plain pos" and "plain after"
    and "chrom \<noteq> []" and "bracket = CHR ''['' \<or> bracket = CHR '']''"
    and "py_int pos = Some n"
  shows "bnd_partner (hd (v_ALT v)) = Inr (chrom, n)
     \<and> variant_admit min_size max_frequency frequency_tag v
         = Inr (\<not> (chrom = v_CHROM v \<and> \<bar>n - v_start v\<bar> < min_size)
                \<and> \<not> too_frequent max_frequency frequency_tag v)"
proof -
  have p: "bnd_partner (bracket_alt before bracket chrom pos after) = Inr (chrom, n)"
    using assms(4-10) by (rule bnd_partner_bracket)
  then show ?thesis using assms(1-3) by (simp add: variant_admit_def)
qed

theorem variant_filter_local_breakend_witness:
  "variant_admit 100 (1 / 100) ''FRQ'' (sv_record ''1'' 1000 ''N[1:1050['' None ''BND'' None)
       = Inr False
     \<and> variant_admit 100 (1 / 100) ''FRQ'' (sv_record ''1'' 1000 '']2:1050]N'' None ''BND'' None)
       = Inr True"
proof -
  let ?a = "sv_record ''1'' 1000 ''N[1:1050['' None ''BND'' None"
  let ?b = "sv_record ''1'' 1000 '']2:1050]N'' None ''BND'' None"
  have n: "py_int ''1050'' = Some 1050"
    by (simp add: py_int_def py_strip_def is_space_def parse_number_def is_digit_def digit_value_def)
  have a: "SVTYPE (v_INFO ?a) = Some ''BND''" "\<not> truthy_int (END (v_INFO ?a))"
    "v_ALT ?a = bracket_alt ''N'' CHR ''['' ''1'' ''1050'' [] # []"
    and b: "SVTYPE (v_INFO ?b) = Some ''BND''" "\<not> truthy_int (END (v_INFO ?b))"
    "v_ALT ?b = bracket_alt [] CHR '']'' ''2'' ''1050'' ''N'' # []"
    and pl: "plain ''N''" "plain ''1''" "plain ''2''" "plain ''1050''" "plain []"
    by (simp_all add: sv_record_def bracket_alt_def plain_def)
  have va: "v_CHROM ?a = ''1''" "v_start ?a = 1000" "\<not> too_frequent (1 / 100) ''FRQ'' ?a"
    and vb: "v_CHROM ?b = ''1''" "v_start ?b = 1000" "\<not> too_frequent (1 / 100) ''FRQ'' ?b"
    by (simp_all add: sv_record_def too_frequent_def)
  have "variant_admit 100 (1 / 100) ''FRQ'' ?a = Inr False"
    using variant_filter_local_breakend[OF a pl(1,2,4,5) _ _ n, of 100 "1 / 100" "''FRQ''"]
    by (simp add: va)
  moreover have "variant_admit 100 (1 / 100) ''FRQ'' ?b = Inr True"
    using variant_filter_local_breakend[OF b pl(5,3,4,1) _ _ n, of 100 "1 / 100" "''FRQ''"]
    by (simp add: vb)
  ultimately show ?thesis by simp
qed

text \<open>
  The claim C8 as stated fails for a \<open>BND\<close> record that carries an \<open>END\<close> field: the first
  branch of the chain is taken, the allele is never read, and the record is admitted
  although its partner \<open>1:1050\<close> is on the same contig and 50 bp from its start.
\<close>

theorem variant_filter_breakend_with_end_counterexample:
  "bnd_partner (hd (v_ALT (sv_record ''1'' 1000 ''N[1:1050['' (Some 9000) ''BND'' None)))
       = Inr (v_CHROM (sv_record ''1'' 1000 ''N[1:1050['' (Some 9000) ''BND'' None), 1050)
     \<and> \<bar>1050 - v_start (sv_record ''1'' 1000 ''N[1:1050['' (Some 9000) ''BND'' None)\<bar> < 100
     \<and> variant_admit 100 (1 / 100) ''FRQ'' (sv_record ''1'' 1000 ''N[1:1050['' (Some 9000) ''BND'' None)
         = Inr True"
  by (simp add: variant_admit_def sv_record_def too_frequent_def bnd_partner_def slice_2_m1_def
      py_int_def py_strip_def is_space_def parse_number_def is_digit_def digit_value_def)

section \<open>Properties of the float rounding\<close>

lemma floor_log2_bounds:
  assumes "0 < x"
  shows "2 powi (floor_log2 x) \<le> x \<and> x < 2 powi (floor_log2 x + 1)"
proof (cases "1 \<le> x")
  case True
  let ?n = "\<lfloor>x\<rfloor>"
  have n: "0 < ?n" using True by simp
  have b1: "1 \<le> bitlen ?n" using n bitlen_nonneg[of ?n] bitlen_eq_zero_iff[of ?n] by linarith
  have bb: "2 ^ nat (bitlen ?n - 1) \<le> ?n" "?n < 2 ^ nat (bitlen ?n)"
    using bitlen_bounds[OF n] by simp_all
  have e: "floor_log2 x = bitlen ?n - 1" using True by (simp add: floor_log2_def)
  have lo: "(2::rat) powi (bitlen ?n - 1) \<le> x"
  proof -
    have "(2::rat) powi (bitlen ?n - 1) = of_int (2 ^ nat (bitlen ?n - 1))"
      using b1 by (simp add: power_int_def)
    also have "\<dots> \<le> of_int ?n" using bb(1) by (simp only: of_int_le_iff)
    also have "\<dots> \<le> x" by simp
    finally show ?thesis .
  qed
  have hi: "x < (2::rat) powi (bitlen ?n)"
  proof -
    have "?n + 1 \<le> 2 ^ nat (bitlen ?n)" using bb(2) by simp
    then have "(of_int (?n + 1) :: rat) \<le> of_int (2 ^ nat (bitlen ?n))"
      by (simp only: of_int_le_iff)
    moreover have "x < of_int (?n + 1)" by linarith
    ultimately have "x < of_int (2 ^ nat (bitlen ?n))" by linarith
    then show ?thesis using b1 by (simp add: power_int_def)
  qed
  show ?thesis using lo hi e by simp
next
  case False
  then have x1: "x < 1" by simp
  let ?t = "1 / x"
  let ?n = "\<lceil>?t\<rceil> - 1"
  have t1: "1 < ?t" using assms x1 by simp
  have n: "0 < ?n" using t1 by linarith
  have nt: "of_int ?n < ?t" "?t \<le> of_int (?n + 1)" by linarith+
  have b1: "1 \<le> bitlen ?n" using n bitlen_nonneg[of ?n] bitlen_eq_zero_iff[of ?n] by linarith
  have bb: "2 ^ nat (bitlen ?n - 1) \<le> ?n" "?n < 2 ^ nat (bitlen ?n)"
    using bitlen_bounds[OF n] by simp_all
  have e: "floor_log2 x = - bitlen ?n" using False by (simp add: floor_log2_def)
  define P :: int where "P = 2 ^ nat (bitlen ?n)"
  define Q :: int where "Q = 2 ^ nat (bitlen ?n - 1)"
  have PQ: "(of_int P :: rat) = 2 ^ nat (bitlen ?n)" "(of_int Q :: rat) = 2 ^ nat (bitlen ?n - 1)"
    by (simp_all add: P_def Q_def)
  have "?n + 1 \<le> P" "Q \<le> ?n" using bb by (simp_all add: P_def Q_def)
  then have "(of_int (?n + 1) :: rat) \<le> of_int P" "(of_int Q :: rat) \<le> of_int ?n"
    by (simp_all only: of_int_le_iff)
  then have "?t \<le> of_int P" "of_int Q < ?t" using nt by linarith+
  then have up: "?t \<le> 2 ^ nat (bitlen ?n)" and dn: "2 ^ nat (bitlen ?n - 1) < ?t"
    by (simp_all only: PQ)
  have lo: "(2::rat) powi (- bitlen ?n) \<le> x"
  proof -
    have "(2::rat) powi (- bitlen ?n) = 1 / 2 ^ nat (bitlen ?n)"
      using b1 by (simp add: power_int_def field_simps)
    also have "\<dots> \<le> x" using up assms by (simp add: field_simps)
    finally show ?thesis .
  qed
  have hi: "x < (2::rat) powi (- bitlen ?n + 1)"
  proof -
    have "(2::rat) powi (- bitlen ?n + 1) = 1 / 2 ^ nat (bitlen ?n - 1)"
    proof (cases "bitlen ?n = 1")
      case True
      then show ?thesis by simp
    next
      case False
      then have "- bitlen ?n + 1 < 0" using b1 by simp
      moreover have "nat (- (- bitlen ?n + 1)) = nat (bitlen ?n - 1)" by simp
      ultimately show ?thesis by (simp add: power_int_def field_simps)
    qed
    moreover have "x < 1 / 2 ^ nat (bitlen ?n - 1)" using dn assms by (simp add: field_simps)
    ultimately show ?thesis by simp
  qed
  show ?thesis using lo hi e by simp
qed

lemma round_half_even_le: "x \<le> of_int k \<Longrightarrow> round_half_even x \<le> k"
proof -
  assume a: "x \<le> of_int k"
  have f: "\<lfloor>x\<rfloor> \<le> k" using a by linarith
  show ?thesis
  proof (cases "x = of_int \<lfloor>x\<rfloor>")
    case True
    then show ?thesis using f by (simp add: round_half_even_def Let_def)
  next
    case False
    then have "of_int \<lfloor>x\<rfloor> < x" by (metis of_int_floor_le order_less_le)
    then have "of_int \<lfloor>x\<rfloor> < (of_int k :: rat)" using a by linarith
    then have "\<lfloor>x\<rfloor> + 1 \<le> k" by simp
    then show ?thesis using f by (simp add: round_half_even_def Let_def)
  qed
qed

lemma round_half_even_nonneg: "0 \<le> x \<Longrightarrow> 0 \<le> round_half_even x"
  by (simp add: round_half_even_def Let_def)

lemma fl_nonneg: "0 \<le> x \<Longrightarrow> 0 \<le> fl x"
  by (simp add: fl_def round_half_even_nonneg)

lemma fl_le:
  assumes x: "0 < x" and xy: "x \<le> of_int k * 2 powi j"
    and k: "k < 2 ^ 53" and j: "- 1074 \<le> j"
  shows "fl x \<le> of_int k * 2 powi j"
proof -
  let ?e = "floor_log2 x"
  let ?g = "ulp_exp x"
  have ax: "\<bar>x\<bar> = x" using x by simp
  have g: "?g = max ?e (- 1022) - 52" by (simp add: ulp_exp_def ax)
  have k0: "0 < k"
  proof (rule ccontr)
    assume "\<not> 0 < k"
    then have "(of_int k :: rat) \<le> 0" by simp
    then have "of_int k * (2::rat) powi j \<le> 0" by (simp add: mult_nonpos_nonneg)
    then show False using x xy by linarith
  qed
  have "(2::rat) powi ?e \<le> x" using floor_log2_bounds[OF x] by simp
  also have "\<dots> \<le> of_int k * 2 powi j" by (rule xy)
  also have "\<dots> < 2 ^ 53 * 2 powi j"
  proof -
    have "(of_int k :: rat) < of_int (2 ^ 53)" using k by (simp only: of_int_less_iff)
    then show ?thesis by simp
  qed
  also have "\<dots> = (2::rat) powi (53 + j)" by (simp add: power_int_add)
  finally have "(2::rat) powi ?e < 2 powi (53 + j)" .
  then have "?e < 53 + j"
  proof -
    assume lt: "(2::rat) powi ?e < 2 powi (53 + j)"
    show ?thesis
    proof (rule ccontr)
      assume "\<not> ?e < 53 + j"
      then have "53 + j \<le> ?e" by simp
      then have "(2::rat) powi (53 + j) \<le> 2 powi ?e" by (rule power_int_increasing) simp
      then show False using lt by simp
    qed
  qed
  then have gj: "?g \<le> j" using j g by simp
  define K where "K = k * 2 ^ nat (j - ?g)"
  have split: "(2::rat) powi j = 2 ^ nat (j - ?g) * 2 powi ?g"
  proof -
    have "(2::rat) powi j = 2 powi ((j - ?g) + ?g)" by simp
    also have "\<dots> = 2 powi (j - ?g) * 2 powi ?g" by (rule power_int_add) simp
    also have "2 powi (j - ?g) = (2::rat) ^ nat (j - ?g)" using gj by (simp add: power_int_def)
    finally show ?thesis .
  qed
  have y: "of_int k * (2::rat) powi j = of_int K * 2 powi ?g"
    by (simp add: K_def split)
  have pos: "(0::rat) < 2 powi ?g" by simp
  have "x / 2 powi ?g \<le> of_int K"
    using xy y pos by (simp add: pos_divide_le_eq)
  then have "round_half_even (x / 2 powi ?g) \<le> K" by (rule round_half_even_le)
  then have "(of_int (round_half_even (x / 2 powi ?g)) :: rat) \<le> of_int K"
    by (simp only: of_int_le_iff)
  then have "of_int (round_half_even (x / 2 powi ?g)) * 2 powi ?g \<le> of_int K * (2::rat) powi ?g"
    using pos by (simp only: mult_le_cancel_right_pos)
  then show ?thesis using x y by (simp add: fl_def)
qed

section \<open>Properties of \<open>spaced_probes\<close>\<close>

lemma fl_0: "fl 0 = 0"
  by (simp add: fl_def)

lemma fl_1: "fl 1 = 1"
  by code_simp

lemma fl_2: "fl 2 = 2"
  by code_simp

lemma not_overflows_small: "0 \<le> x \<Longrightarrow> x \<le> 2 ^ 1000 \<Longrightarrow> \<not> overflows x"
proof -
  assume a: "0 \<le> x" "x \<le> 2 ^ 1000"
  have "(2::rat) ^ 1000 < 2 ^ 1024" by (rule power_strict_increasing) simp_all
  then show ?thesis using a by (simp add: overflows_def)
qed

lemma fl_bounded:
  assumes "0 \<le> x" and "x \<le> of_int k * 2 powi j" and "k < 2 ^ 53" and "- 1074 \<le> j"
  shows "0 \<le> fl x \<and> fl x \<le> of_int k * 2 powi j"
proof (cases "x = 0")
  case True
  then show ?thesis using assms by (simp add: fl_0)
next
  case False
  then have "0 < x" using assms(1) by simp
  then show ?thesis using fl_le[OF _ assms(2-4)] fl_nonneg[OF assms(1)] by simp
qed

lemma int_to_float_small:
  assumes "0 \<le> n" and "n \<le> 2 ^ 1000"
  shows "int_to_float n = Inr (fl (of_int n))"
proof -
  have "(of_int n :: rat) \<le> of_int (2 ^ 1000)" using assms(2) by (simp only: of_int_le_iff)
  then have le: "(of_int n :: rat) \<le> of_int 1 * 2 powi 1000" by simp
  have nn: "(0::rat) \<le> of_int n" using assms(1) by simp
  have "0 \<le> fl (of_int n) \<and> fl (of_int n) \<le> of_int 1 * 2 powi 1000"
    using fl_bounded[OF nn le] by simp
  then have "\<not> overflows (fl (of_int n))" by (intro not_overflows_small) simp_all
  then show ?thesis by (simp add: int_to_float_def)
qed

lemma step_zero_spacing:
  assumes "0 \<le> i" and "i + 1 \<le> 2 ^ 1000"
  shows "int_of_int_times_float (i + 1) 0 = Inr 0"
proof -
  have "int_to_float (i + 1) = Inr (fl (of_int (i + 1)))"
    using assms by (intro int_to_float_small) simp_all
  then show ?thesis
    by (simp add: int_of_int_times_float_def fl_0 overflows_def py_trunc_def)
qed

lemma spaced_loop_stuck:
  "0 \<le> i \<Longrightarrow> i + int k \<le> 2 ^ 1000
     \<Longrightarrow> spaced_loop k s s 0 i s = (replicate k s, Running)"
proof (induction k arbitrary: i)
  case 0
  then show ?case by simp
next
  case (Suc k)
  have step: "int_of_int_times_float (i + 1) 0 = Inr 0"
    using Suc.prems by (intro step_zero_spacing) simp_all
  have "spaced_loop k s s 0 (i + 1) s = (replicate k s, Running)"
    using Suc.prems by (intro Suc.IH) simp_all
  then show ?case using step by simp
qed

text \<open>
  C3. The claim: \<open>spaced_probes\<close> yields a finite sequence for every start, end and
  positive spacing. When \<open>end = start\<close> the spacing is \<open>0.0\<close>, so \<open>pos\<close> stays at \<open>start\<close>
  and the condition \<open>pos <= end\<close> never fails: however much fuel up to \<open>2^1000\<close> passes the
  loop is given, it yields \<open>start\<close> in every pass and is still running.
\<close>

theorem spaced_probes_start_eq_end:
  assumes "probe_spacing \<noteq> 0" and "int k \<le> 2 ^ 1000"
  shows "spaced_probes k start start probe_spacing = (replicate k start, Running)"
proof -
  have "int_truediv 0 2 = Inr 0"
    by (simp add: int_truediv_def fl_0 overflows_def)
  then show ?thesis
    using assms spaced_loop_stuck[of 0 k start] by (simp add: spaced_probes_def)
qed

theorem spaced_probes_start_eq_end_witness:
  "spaced_probes 1000 5 5 1 = (replicate 1000 5, Running)"
proof -
  have "(1000 :: int) \<le> 2 ^ 10" by simp
  also have "(2 :: int) ^ 10 \<le> 2 ^ 1000" by (rule power_increasing) simp_all
  finally have "int 1000 \<le> 2 ^ 1000" by simp
  then show ?thesis using spaced_probes_start_eq_end[of 1 1000 5] by simp
qed

lemma spaced_loop_le_end:
  "p \<in> set (fst (spaced_loop k s e sp i pos)) \<Longrightarrow> p \<le> e"
proof (induction k arbitrary: i pos)
  case 0
  then show ?case by simp
next
  case (Suc k)
  then show ?case by (auto split: if_splits sum.splits)
qed

lemma spaced_probes_le_end:
  "p \<in> set (fst (spaced_probes fuel s e probe_spacing)) \<Longrightarrow> p \<le> e"
  by (auto simp: spaced_probes_def Let_def spaced_loop_le_end split: if_splits sum.splits)

lemma step_bounded:
  assumes "0 \<le> x" and "x \<le> of_int l" and "l < 2 ^ 53"
  shows "\<not> overflows (fl x) \<and> py_trunc (fl x) \<le> l"
proof -
  have "x \<le> of_int l * 2 powi 0" using assms(2) by simp
  then have b: "0 \<le> fl x \<and> fl x \<le> of_int l * 2 powi 0"
    using fl_bounded[OF assms(1) _ assms(3), of 0] by simp
  then have le: "fl x \<le> of_int l" by simp
  have "(of_int l :: rat) \<le> of_int (2 ^ 53)" using assms(3) by (simp only: of_int_le_iff)
  also have "(of_int (2 ^ 53) :: rat) \<le> 2 ^ 1000" by simp
  finally have "fl x \<le> 2 ^ 1000" using le by simp
  then have "\<not> overflows (fl x)" using b by (intro not_overflows_small) simp_all
  moreover have "py_trunc (fl x) \<le> l" using b le by (simp add: py_trunc_def floor_le_iff)
  ultimately show ?thesis by simp
qed

lemma spacing_bounded:
  assumes l: "0 < l" "l < 2 ^ 53" and m: "2 \<le> m"
  shows "int_truediv l m = Inr (fl (of_int l / of_int m))
     \<and> 0 \<le> fl (of_int l / of_int m) \<and> 2 * fl (of_int l / of_int m) \<le> of_int l"
proof -
  let ?x = "(of_int l :: rat) / of_int m"
  have mpos: "(0::rat) < of_int m" using m by simp
  have x0: "0 \<le> ?x" using l(1) m by simp
  have "(of_int l :: rat) * 2 \<le> of_int l * of_int m"
    using l(1) m by (simp add: mult_le_cancel_left_pos)
  then have "?x \<le> of_int l / 2" using mpos by (simp add: field_simps)
  also have "(of_int l :: rat) / 2 = of_int l * 2 powi (- 1)" by (simp add: power_int_minus)
  finally have xle: "?x \<le> of_int l * 2 powi (- 1)" .
  have b: "0 \<le> fl ?x \<and> fl ?x \<le> of_int l * 2 powi (- 1)"
    using fl_bounded[OF x0 xle l(2)] by simp
  then have half: "2 * fl ?x \<le> of_int l" by (simp add: power_int_minus field_simps)
  have "(of_int l :: rat) \<le> of_int (2 ^ 53)" using l(2) by (simp only: of_int_le_iff)
  also have "(of_int (2 ^ 53) :: rat) \<le> 2 ^ 1000" by simp
  finally have "fl ?x \<le> 2 ^ 1000" using half b by linarith
  then have "\<not> overflows (fl ?x)" using b by (intro not_overflows_small) simp_all
  then show ?thesis using m b half by (simp add: int_truediv_def)
qed

lemma first_steps:
  assumes l: "0 < l" "l < 2 ^ 53" and s: "0 \<le> s" "2 * s \<le> of_int l"
  shows "\<exists>d1 d2. int_of_int_times_float 1 s = Inr d1 \<and> d1 \<le> l
     \<and> int_of_int_times_float 2 s = Inr d2 \<and> d2 \<le> l"
proof -
  have f1: "int_to_float 1 = Inr 1" and f2: "int_to_float 2 = Inr 2"
    by (simp_all add: int_to_float_def fl_1 fl_2 overflows_def)
  have "s \<le> of_int l" using s l(1) by linarith
  then have one: "\<not> overflows (fl (1 * s)) \<and> py_trunc (fl (1 * s)) \<le> l"
    using step_bounded[of "1 * s" l] s(1) l(2) by simp
  have two: "\<not> overflows (fl (2 * s)) \<and> py_trunc (fl (2 * s)) \<le> l"
    using step_bounded[of "2 * s" l] s l(2) by simp
  show ?thesis using f1 f2 one two by (simp add: int_of_int_times_float_def)
qed

lemma spaced_loop_three:
  assumes "start \<le> end"
    and "int_of_int_times_float 1 s = Inr d1" and "d1 \<le> end - start"
    and "int_of_int_times_float 2 s = Inr d2" and "d2 \<le> end - start"
  shows "3 \<le> length (fst (spaced_loop (Suc (Suc (Suc k))) start end s 0 start))
     \<and> hd (fst (spaced_loop (Suc (Suc (Suc k))) start end s 0 start)) = start"
  using assms by (simp split: sum.splits)

lemma spaced_probes_unfold:
  "probe_spacing \<noteq> 0
     \<Longrightarrow> int_truediv (end - start) (max ((end - start) div probe_spacing) 2) = Inr s
     \<Longrightarrow> spaced_probes fuel start end probe_spacing = spaced_loop fuel start end s 0 start"
  by (simp add: spaced_probes_def Let_def)

text \<open>
  Where the float quotient is close enough to the exact one, that is for every \<open>start\<close>
  and \<open>end\<close> with \<open>0 < end - start < 2^53\<close> and every positive spacing, \<open>spaced_probes\<close>
  yields \<open>start\<close> first and yields at least three positions (seen as soon as the loop is
  given three passes), and every position it yields is at most \<open>end\<close>.
\<close>

theorem spaced_probes_first_three:
  assumes "start < end" and "end - start < 2 ^ 53" and "0 < probe_spacing" and "3 \<le> fuel"
  shows "3 \<le> length (fst (spaced_probes fuel start end probe_spacing))
     \<and> hd (fst (spaced_probes fuel start end probe_spacing)) = start
     \<and> (\<forall>pos \<in> set (fst (spaced_probes fuel start end probe_spacing)). pos \<le> end)"
proof -
  define l where "l = end - start"
  define m where "m = max (l div probe_spacing) 2"
  define s where "s = fl (of_int l / of_int m)"
  have l: "0 < l" "l < 2 ^ 53" using assms(1,2) by (simp_all add: l_def)
  have m: "2 \<le> m" by (simp add: m_def)
  have sp: "int_truediv l m = Inr s" "0 \<le> s" "2 * s \<le> of_int l"
    using spacing_bounded[OF l m] by (simp_all add: s_def)
  obtain d1 d2 where d: "int_of_int_times_float 1 s = Inr d1" "d1 \<le> l"
      "int_of_int_times_float 2 s = Inr d2" "d2 \<le> l"
    using first_steps[OF l sp(2,3)] by blast
  define k where "k = fuel - 3"
  have k: "fuel = Suc (Suc (Suc k))" using assms(4) by (simp add: k_def)
  have le: "start \<le> end" using assms(1) by simp
  have ne: "probe_spacing \<noteq> 0" using assms(3) by simp
  have run: "spaced_probes fuel start end probe_spacing
      = spaced_loop (Suc (Suc (Suc k))) start end s 0 start"
    unfolding k[symmetric] using ne sp(1) unfolding l_def m_def by (rule spaced_probes_unfold)
  have three: "3 \<le> length (fst (spaced_loop (Suc (Suc (Suc k))) start end s 0 start))
     \<and> hd (fst (spaced_loop (Suc (Suc (Suc k))) start end s 0 start)) = start"
    using le d unfolding l_def by (rule spaced_loop_three)
  have three': "3 \<le> length (fst (spaced_probes fuel start end probe_spacing))
     \<and> hd (fst (spaced_probes fuel start end probe_spacing)) = start"
    unfolding run by (rule three)
  have "pos \<le> end" if "pos \<in> set (fst (spaced_probes fuel start end probe_spacing))" for pos
    using that by (rule spaced_probes_le_end)
  then show ?thesis using three' by blast
qed

lemmas float_ops = int_truediv_def int_to_float_def int_of_int_times_float_def overflows_def

theorem spaced_probes_first_three_witness:
  "3 \<le> length (fst (spaced_probes 5 0 9 200000)) \<and> hd (fst (spaced_probes 5 0 9 200000)) = 0"
proof -
  have h: "(0::int) < 9" "(9::int) - 0 < 2 ^ 53" "(0::int) < 200000" "(3::nat) \<le> 5"
    by simp_all
  show ?thesis using spaced_probes_first_three[OF h] by blast
qed

lemma fl_big: "fl (9007199254740995 / 2) = 4503599627370498"
  "fl 4503599627370498 = 4503599627370498" "fl 9007199254740996 = 9007199254740996"
  by code_simp+

lemma trunc_big: "py_trunc 4503599627370498 = 4503599627370498"
  "py_trunc 9007199254740996 = 9007199254740996"
  by code_simp+

lemma steps_big: "int_truediv 9007199254740995 2 = Inr 4503599627370498"
  "int_of_int_times_float 1 4503599627370498 = Inr 4503599627370498"
  "int_of_int_times_float 2 4503599627370498 = Inr 9007199254740996"
  by (simp_all add: float_ops fl_1 fl_2 fl_big trunc_big)

text \<open>
  C9. The claim: for every \<open>end > start\<close> and every positive spacing, \<open>spaced_probes\<close>
  yields \<open>start\<close> first, yields at least three positions, and yields no position above
  \<open>end\<close>; the docstring of the function says the same (\<open>at least three positions are
  included\<close>), and \<open>max(n, 2)\<close> is there to ensure it. The code does not keep it at
  \<open>spaced_probes(0, 2^53 + 3, 2^53 + 3)\<close>: the float division rounds \<open>(2^53 + 3) / 2\<close> up
  to \<open>2^52 + 2\<close>, the second position is \<open>2^52 + 2\<close>, the third would be \<open>2^53 + 4\<close>,
  above \<open>end\<close>, and the generator is exhausted after two positions.
\<close>

theorem spaced_probes_two_positions:
  "(0::int) < 9007199254740995
     \<and> spaced_probes 5 0 9007199254740995 9007199254740995 = ([0, 4503599627370498], Done)
     \<and> length (fst (spaced_probes 5 0 9007199254740995 9007199254740995)) < 3"
proof -
  have fuel: "(5::nat) = Suc (Suc (Suc (Suc (Suc 0))))" by simp
  have "spaced_probes 5 0 9007199254740995 9007199254740995
      = spaced_loop 5 0 9007199254740995 4503599627370498 0 0"
    by (rule spaced_probes_unfold) (simp_all add: steps_big)
  also have "\<dots> = ([0, 4503599627370498], Done)"
    unfolding fuel by (simp add: steps_big)
  finally show ?thesis by simp
qed

section \<open>Properties of \<open>triangle_probes\<close>\<close>

lemma height_step_default: "float_div_int (5 / 2) 7 = Inr (6433713753386423 / 18014398509481984)"
  by code_simp

lemma heights_default:
  "float_add (float_sub (5 / 2) (float_mul_int (6433713753386423 / 18014398509481984) 0)) (fl (1 / 10))
     = float_add (5 / 2) (fl (1 / 10))"
  "float_add (float_sub (5 / 2) (float_mul_int (6433713753386423 / 18014398509481984) 1)) (fl (1 / 10))
     = 2525232648204171 / 1125899906842624"
  "float_add (float_sub (5 / 2) (float_mul_int (6433713753386423 / 18014398509481984) 2)) (fl (1 / 10))
     = 4246251077235039 / 2251799813685248"
  "float_add (float_sub (5 / 2) (float_mul_int (6433713753386423 / 18014398509481984) 3)) (fl (1 / 10))
     = 6884073716123473 / 4503599627370496"
  "float_add (float_sub (5 / 2) (float_mul_int (6433713753386423 / 18014398509481984) 4)) (fl (1 / 10))
     = 5275645277776867 / 4503599627370496"
  "float_add (float_sub (5 / 2) (float_mul_int (6433713753386423 / 18014398509481984) 5)) (fl (1 / 10))
     = 7334433678860521 / 9007199254740992"
  "float_add (float_sub (5 / 2) (float_mul_int (6433713753386423 / 18014398509481984) 6)) (fl (1 / 10))
     = 4117576802167311 / 9007199254740992"
  "float_add (float_sub (5 / 2) (float_mul_int (6433713753386423 / 18014398509481984) 7)) (fl (1 / 10))
     = fl (1 / 10)"
  by code_simp+

lemma float_constants:
  "fl (1 / 10) = 3602879701896397 / 36028797018963968"
  "float_add (5 / 2) (3602879701896397 / 36028797018963968) = 5854679515581645 / 2251799813685248"
  by code_simp+

lemma triangle_probes_default_list:
  "triangle_probes center (5 / 2) 5001 15 =
     Inr [(center - 2499, fl (1 / 10)),
          (center - 2142, 4117576802167311 / 9007199254740992),
          (center - 1785, 7334433678860521 / 9007199254740992),
          (center - 1428, 5275645277776867 / 4503599627370496),
          (center - 1071, 6884073716123473 / 4503599627370496),
          (center - 714, 4246251077235039 / 2251799813685248),
          (center - 357, 2525232648204171 / 1125899906842624),
          (center, float_add (5 / 2) (fl (1 / 10))),
          (center + 357, 2525232648204171 / 1125899906842624),
          (center + 714, 4246251077235039 / 2251799813685248),
          (center + 1071, 6884073716123473 / 4503599627370496),
          (center + 1428, 5275645277776867 / 4503599627370496),
          (center + 1785, 7334433678860521 / 9007199254740992),
          (center + 2142, 4117576802167311 / 9007199254740992),
          (center + 2499, fl (1 / 10))]"
  by (simp add: triangle_probes_def height_step_default upto_rec1 heights_default)

text \<open>
  C6. \<open>triangle_probes(center, height=2.5, width=5001, steps=15)\<close> yields exactly 15
  pairs. The positions are \<open>center + i * 357\<close> for \<open>i\<close> from \<open>-7\<close> to \<open>7\<close>, with
  \<open>357 = floor(5000 / 14)\<close>: strictly increasing and symmetric about \<open>center\<close>. The heights
  are symmetric too; the height at \<open>center\<close> is the float sum \<open>height + 0.1\<close> and is the
  largest, and the height at the two end points is the float \<open>0.1\<close> and is the smallest.
\<close>

theorem triangle_probes_default:
  "\<exists>ps. triangle_probes center (5 / 2) 5001 15 = Inr ps
     \<and> length ps = 15
     \<and> (5001 - 1) div (15 - 1) = (357 :: int)
     \<and> map fst ps = map (\<lambda>i. center + i * 357) [- 7 .. 7]
     \<and> sorted_wrt (<) (map fst ps)
     \<and> map fst (rev ps) = map (\<lambda>p. 2 * center - p) (map fst ps)
     \<and> map snd (rev ps) = map snd ps
     \<and> ps ! 7 = (center, float_add (5 / 2) (fl (1 / 10)))
     \<and> ps ! 0 = (center - 7 * 357, fl (1 / 10))
     \<and> ps ! 14 = (center + 7 * 357, fl (1 / 10))
     \<and> Max (snd ` set ps) = float_add (5 / 2) (fl (1 / 10))
     \<and> Min (snd ` set ps) = fl (1 / 10)"
proof -
  let ?hs = "[fl (1 / 10), 4117576802167311 / 9007199254740992,
      7334433678860521 / 9007199254740992, 5275645277776867 / 4503599627370496,
      6884073716123473 / 4503599627370496, 4246251077235039 / 2251799813685248,
      2525232648204171 / 1125899906842624, float_add (5 / 2) (fl (1 / 10)),
      2525232648204171 / 1125899906842624, 4246251077235039 / 2251799813685248,
      6884073716123473 / 4503599627370496, 5275645277776867 / 4503599627370496,
      7334433678860521 / 9007199254740992, 4117576802167311 / 9007199254740992,
      fl (1 / 10)]"
  let ?ps = "zip (map (\<lambda>i. center + i * 357) [- 7 .. 7]) ?hs"
  have run: "triangle_probes center (5 / 2) 5001 15 = Inr ?ps"
    by (simp add: triangle_probes_default_list upto_rec1)
  have len: "length ?ps = 15" by (simp add: upto_rec1)
  have pos: "map fst ?ps = map (\<lambda>i. center + i * 357) [- 7 .. 7]" by (simp add: upto_rec1)
  have hts: "map snd ?ps = ?hs" by (simp add: upto_rec1)
  have inc: "sorted_wrt (<) (map fst ?ps)" unfolding pos by (simp add: upto_rec1)
  have sym: "map fst (rev ?ps) = map (\<lambda>p. 2 * center - p) (map fst ?ps)"
    unfolding rev_map[symmetric] pos by (simp add: upto_rec1)
  have hsym: "map snd (rev ?ps) = map snd ?ps"
    unfolding rev_map[symmetric] hts by simp
  have pts: "?ps ! 7 = (center, float_add (5 / 2) (fl (1 / 10)))"
    "?ps ! 0 = (center - 7 * 357, fl (1 / 10))" "?ps ! 14 = (center + 7 * 357, fl (1 / 10))"
    by (simp_all add: upto_rec1)
  have img: "snd ` set ?ps = set ?hs" by (simp only: set_map[symmetric] hts)
  have mx: "Max (snd ` set ?ps) = float_add (5 / 2) (fl (1 / 10))"
    unfolding img by (simp add: float_constants)
  have mn: "Min (snd ` set ?ps) = fl (1 / 10)"
    unfolding img by (simp add: float_constants)
  have step: "(5001 - 1) div (15 - 1) = (357 :: int)" by simp
  show ?thesis
    using run len step pos inc sym hsym pts mx mn by (intro exI[of _ ?ps] conjI)
qed

section \<open>Properties of the mean coverage\<close>

text \<open>
  C4, as amended. Computing the mean coverage over zero qualifying records fails with
  Python's own \<open>ZeroDivisionError\<close>, raised by the unguarded division: in
  \<open>compute_mean_coverage\<close> when no record was parsed, and in \<open>add_coverage_probes\<close> when no
  parsed record lies on a known contig. With at least one qualifying record both return a
  mean.
\<close>

theorem mean_coverage_zero_records:
  "compute_mean_coverage [] = Inl ZeroDivisionError
     \<and> ((\<forall>r \<in> set records. cr_chrom r \<notin> dom contig_lengths)
          \<longrightarrow> add_coverage_probes_mean contig_lengths records = Inl ZeroDivisionError)
     \<and> (records \<noteq> [] \<longrightarrow> (\<exists>mean. compute_mean_coverage records = Inr mean))
     \<and> ((\<exists>r \<in> set records. cr_chrom r \<in> dom contig_lengths)
          \<longrightarrow> (\<exists>mean. add_coverage_probes_mean contig_lengths records = Inr mean))"
proof -
  have one: "compute_mean_coverage [] = Inl ZeroDivisionError"
    by (simp add: compute_mean_coverage_def)
  have two: "add_coverage_probes_mean contig_lengths records = Inl ZeroDivisionError"
    if "\<forall>r \<in> set records. cr_chrom r \<notin> dom contig_lengths"
  proof -
    have "filter (\<lambda>r. cr_chrom r \<in> dom contig_lengths) records = []"
      using that by (simp add: filter_empty_conv)
    then show ?thesis by (simp add: add_coverage_probes_mean_def)
  qed
  have three: "\<exists>mean. compute_mean_coverage records = Inr mean" if "records \<noteq> []"
    using that by (simp add: compute_mean_coverage_def Let_def)
  have four: "\<exists>mean. add_coverage_probes_mean contig_lengths records = Inr mean"
    if "\<exists>r \<in> set records. cr_chrom r \<in> dom contig_lengths"
  proof -
    have "filter (\<lambda>r. cr_chrom r \<in> dom contig_lengths) records \<noteq> []"
      using that by (simp add: filter_empty_conv)
    then show ?thesis by (simp add: add_coverage_probes_mean_def Let_def)
  qed
  show ?thesis using one two three four by blast
qed

theorem mean_coverage_zero_records_witness:
  "add_coverage_probes_mean [''1'' \<mapsto> 249250621] [record_at 5\<lparr>cr_chrom := ''GL000207.1''\<rparr>]
     = Inl ZeroDivisionError"
proof -
  have h: "\<forall>r \<in> set [record_at 5\<lparr>cr_chrom := ''GL000207.1''\<rparr>]. cr_chrom r \<notin> dom [''1'' \<mapsto> (249250621 :: int)]"
    by simp
  show ?thesis
    using mean_coverage_zero_records[of "[record_at 5\<lparr>cr_chrom := ''GL000207.1''\<rparr>]" "[''1'' \<mapsto> 249250621]"] h
    by blast
qed

text \<open>
  The claim C4 as stated fails: with no record at all, neither function fails with
  \<open>EmptyInputError\<close>; both raise \<open>ZeroDivisionError\<close>.
\<close>

theorem mean_coverage_empty_counterexample:
  "compute_mean_coverage [] = Inl ZeroDivisionError
     \<and> compute_mean_coverage [] \<noteq> Inl EmptyInputError
     \<and> add_coverage_probes_mean [''1'' \<mapsto> 249250621] [] = Inl ZeroDivisionError
     \<and> add_coverage_probes_mean [''1'' \<mapsto> 249250621] [] \<noteq> Inl EmptyInputError"
  by (simp add: compute_mean_coverage_def add_coverage_probes_mean_def)

end
